theory Spec2Isabelle
  imports Complex_Main
begin

section \<open>Python exceptions\<close>

text \<open>
  An exception is its class and its message (\<open>str(exc)\<close>). \<open>CancelledError\<close> derives
  from \<open>BaseException\<close>, every other class used here from \<open>Exception\<close>.
\<close>

datatype exc_class = KeyError | RuntimeError | OverflowError | TypeError | ValueError | CancelledError

datatype py_exc = Exc exc_class string

fun is_Exception :: "py_exc \<Rightarrow> bool" where
  "is_Exception (Exc c m) = (c \<noteq> CancelledError)"

fun str_exc :: "py_exc \<Rightarrow> string" where
  "str_exc (Exc c m) = m"

section \<open>Insertion-ordered dictionaries\<close>

text \<open>
  \<open>OrderedDict\<close> and \<open>dict\<close> keep their keys in insertion order, each key once: an
  association list whose keys are distinct, the oldest key at the head.
\<close>

type_synonym ('k, 'a) odict = "('k \<times> 'a) list"

definition keys :: "('k, 'a) odict \<Rightarrow> 'k list" where
  "keys d = map fst d"

definition wf_dict :: "('k, 'a) odict \<Rightarrow> bool" where
  "wf_dict d = distinct (keys d)"

text \<open>\<open>k in d\<close>\<close>

definition contains :: "'k \<Rightarrow> ('k, 'a) odict \<Rightarrow> bool" where
  "contains k d = (k \<in> set (keys d))"

text \<open>\<open>d.pop(k, None)\<close>, keeping the dictionary only\<close>

definition discard :: "'k \<Rightarrow> ('k, 'a) odict \<Rightarrow> ('k, 'a) odict" where
  "discard k d = filter (\<lambda>p. fst p \<noteq> k) d"

text \<open>\<open>d.pop(k)\<close>: raises \<open>KeyError\<close> when the key is missing\<close>

definition pop :: "'k \<Rightarrow> ('k, 'a) odict \<Rightarrow> py_exc + ('a \<times> ('k, 'a) odict)" where
  "pop k d = (case map_of d k of
                None \<Rightarrow> Inl (Exc KeyError ''key'')
              | Some e \<Rightarrow> Inr (e, discard k d))"

text \<open>\<open>d[k] = v\<close>: a present key keeps its place, a new key goes to the end\<close>

fun setitem :: "'k \<Rightarrow> 'a \<Rightarrow> ('k, 'a) odict \<Rightarrow> ('k, 'a) odict" where
  "setitem k v [] = [(k, v)]"
| "setitem k v (p # d) = (if fst p = k then (k, v) # d else p # setitem k v d)"

section \<open>Floating-point numbers\<close>

text \<open>
  The program adds a float and an integer (\<open>time.time() + ttl_seconds\<close>), compares
  floats (\<open>expires_at <= now\<close>) and sums numbers with \<open>sum\<close>. The float type and its
  arithmetic are parameters of the model:
  \<^item> \<open>float_add\<close>, the rounded addition of two floats;
  \<^item> \<open>float_of_int\<close>, the conversion of an integer, which raises \<open>OverflowError\<close> (here
    \<open>None\<close>) when the integer is too large;
  \<^item> \<open>float_le\<close>, the comparison \<open><=\<close>;
  \<^item> \<open>float_sum\<close>, what the built-in \<open>sum\<close> returns on a list of integers and floats in
    which a float occurs: a float, or \<open>OverflowError\<close> (here \<open>None\<close>). Its rounding is the
    interpreter's: left to right up to Python 3.11, compensated from Python 3.12.
\<close>

record 'f float_ops =
  float_add :: "'f \<Rightarrow> 'f \<Rightarrow> 'f"
  float_of_int :: "int \<Rightarrow> 'f option"
  float_le :: "'f \<Rightarrow> 'f \<Rightarrow> bool"
  float_sum :: "(int + 'f) list \<Rightarrow> 'f option"

definition overflow :: py_exc where
  "overflow = Exc OverflowError ''int too large to convert to float''"

section \<open>The in-process TTL/LRU cache (caching.py)\<close>

text \<open>
  \<open>time.time()\<close> is read once in \<open>set\<close> and once in \<open>_purge_expired\<close>; the model takes
  the float read as the argument \<open>now\<close>.
\<close>

record ('v, 'f) Entry =
  val :: 'v
  expires_at :: "'f option"

record ('v, 'f) MemoryTTLCache =
  store :: "(string, ('v, 'f) Entry) odict"
  max_items :: int

definition MemoryTTLCache_init :: "int \<Rightarrow> ('v, 'f) MemoryTTLCache" where
  "MemoryTTLCache_init m = \<lparr>store = [], max_items = m\<rparr>"

text \<open>
  \<open>while len(self._store) > self._max_items: self._store.popitem(last=False)\<close>;
  \<open>popitem\<close> raises \<open>KeyError\<close> on an empty dictionary.
\<close>

fun evict_if_needed :: "int \<Rightarrow> ('k, 'a) odict \<Rightarrow> py_exc + ('k, 'a) odict" where
  "evict_if_needed m [] =
     (if int (length ([] :: ('k, 'a) odict)) > m then Inl (Exc KeyError ''dictionary is empty'') else Inr [])"
| "evict_if_needed m (p # d) =
     (if int (length (p # d)) > m then evict_if_needed m d else Inr (p # d))"

definition is_expired :: "'f float_ops \<Rightarrow> 'f \<Rightarrow> ('v, 'f) Entry \<Rightarrow> bool" where
  "is_expired ops now e = (case expires_at e of None \<Rightarrow> False | Some t \<Rightarrow> float_le ops t now)"

definition purge_expired ::
  "'f float_ops \<Rightarrow> 'f \<Rightarrow> (string, ('v, 'f) Entry) odict \<Rightarrow> (string, ('v, 'f) Entry) odict" where
  "purge_expired ops now d =
     (let keys_to_delete = map fst (filter (\<lambda>p. is_expired ops now (snd p)) d)
      in fold discard keys_to_delete d)"

definition get ::
  "'f float_ops \<Rightarrow> 'f \<Rightarrow> string \<Rightarrow> ('v, 'f) MemoryTTLCache
     \<Rightarrow> py_exc + ('v option \<times> ('v, 'f) MemoryTTLCache)" where
  "get ops now key c =
     (let d = purge_expired ops now (store c) in
      if contains key d then
        (case pop key d of
           Inl e \<Rightarrow> Inl e
         | Inr (entry, d') \<Rightarrow> Inr (Some (val entry), c\<lparr>store := setitem key entry d'\<rparr>))
      else Inr (None, c\<lparr>store := d\<rparr>))"

text \<open>
  \<open>expires_at = time.time() + ttl_seconds if ttl_seconds else None\<close>: the test is
  Python truthiness, so \<open>None\<close> and \<open>0\<close> give no expiry and every other integer does.
  The sum of a float and an integer converts the integer first, and that raises
  \<open>OverflowError\<close> when the integer is too large.
\<close>

definition expiry :: "'f float_ops \<Rightarrow> 'f \<Rightarrow> int option \<Rightarrow> py_exc + 'f option" where
  "expiry ops now ttl_seconds =
     (case ttl_seconds of
        None \<Rightarrow> Inr None
      | Some t \<Rightarrow>
          if t \<noteq> 0 then
            (case float_of_int ops t of
               None \<Rightarrow> Inl overflow
             | Some x \<Rightarrow> Inr (Some (float_add ops now x)))
          else Inr None)"

text \<open>
  \<open>set\<close> returns nothing, so its model gives the exception it raised, if any, and the
  cache it leaves. The expiry is computed before the store is touched; when \<open>popitem\<close>
  raises, the eviction loop has emptied the store.
\<close>

definition set_item ::
  "'f float_ops \<Rightarrow> 'f \<Rightarrow> string \<Rightarrow> 'v \<Rightarrow> int option \<Rightarrow> ('v, 'f) MemoryTTLCache
     \<Rightarrow> py_exc option \<times> ('v, 'f) MemoryTTLCache" where
  "set_item ops now key v ttl_seconds c =
     (case expiry ops now ttl_seconds of
        Inl e \<Rightarrow> (Some e, c)
      | Inr expires \<Rightarrow>
          (case (if contains key (store c) then map_sum id snd (pop key (store c))
                 else Inr (store c)) of
             Inl e \<Rightarrow> (Some e, c)
           | Inr d \<Rightarrow>
               (case evict_if_needed (max_items c)
                       (setitem key \<lparr>val = v, expires_at = expires\<rparr> d) of
                  Inl e \<Rightarrow> (Some e, c\<lparr>store := []\<rparr>)
                | Inr d' \<Rightarrow> (None, c\<lparr>store := d'\<rparr>))))"

text \<open>What a call returned to its caller: \<open>None\<close> when it raised.\<close>

definition returned :: "py_exc + ('a \<times> 's) \<Rightarrow> 'a option" where
  "returned r = (case r of Inl e \<Rightarrow> None | Inr (x, s) \<Rightarrow> Some x)"

text \<open>
  A sequence of calls on one cache, each with the float its clock read. A call that
  raises hands the exception to its caller and leaves the cache to the calls after it.
\<close>

datatype ('v, 'f) cache_op = Get 'f string | Set 'f string 'v "int option"

fun apply_op ::
  "'f float_ops \<Rightarrow> ('v, 'f) cache_op \<Rightarrow> ('v, 'f) MemoryTTLCache
     \<Rightarrow> py_exc option \<times> ('v, 'f) MemoryTTLCache" where
  "apply_op ops (Get now k) c =
     (case get ops now k c of
        Inl e \<Rightarrow> (Some e, c\<lparr>store := purge_expired ops now (store c)\<rparr>)
      | Inr (r, c') \<Rightarrow> (None, c'))"
| "apply_op ops (Set now k v ttl) c = set_item ops now k v ttl c"

fun run_ops ::
  "'f float_ops \<Rightarrow> ('v, 'f) cache_op list \<Rightarrow> ('v, 'f) MemoryTTLCache \<Rightarrow> ('v, 'f) MemoryTTLCache" where
  "run_ops ops [] c = c"
| "run_ops ops (x # xs) c = run_ops ops xs (snd (apply_op ops x c))"

text \<open>The exceptions that the calls of a sequence raise, in order.\<close>

fun raised ::
  "'f float_ops \<Rightarrow> ('v, 'f) cache_op list \<Rightarrow> ('v, 'f) MemoryTTLCache \<Rightarrow> py_exc list" where
  "raised ops [] c = []"
| "raised ops (x # xs) c =
     (case fst (apply_op ops x c) of None \<Rightarrow> [] | Some e \<Rightarrow> [e])
       @ raised ops xs (snd (apply_op ops x c))"

definition cache_inv :: "('v, 'f) MemoryTTLCache \<Rightarrow> bool" where
  "cache_inv c = (wf_dict (store c) \<and> int (length (store c)) \<le> max_items c)"

subsection \<open>The history of touches\<close>

text \<open>
  A call touches a key when it is a \<open>set\<close> of that key that returns or a \<open>get\<close> of that
  key that returns its value. The history of a run lists, call by call, the key touched
  if any. \<open>last_touch\<close> is the position in the history of the last touch of a key, and a
  key was touched before another one when its last touch is the earlier.
\<close>

definition touched ::
  "'f float_ops \<Rightarrow> ('v, 'f) cache_op \<Rightarrow> ('v, 'f) MemoryTTLCache \<Rightarrow> string option" where
  "touched ops x c =
     (case x of
        Get now k \<Rightarrow> (case returned (get ops now k c) of Some (Some v) \<Rightarrow> Some k | _ \<Rightarrow> None)
      | Set now k v ttl \<Rightarrow>
          (case fst (set_item ops now k v ttl c) of None \<Rightarrow> Some k | Some e \<Rightarrow> None))"

fun touches ::
  "'f float_ops \<Rightarrow> ('v, 'f) cache_op list \<Rightarrow> ('v, 'f) MemoryTTLCache \<Rightarrow> string option list" where
  "touches ops [] c = []"
| "touches ops (x # xs) c = touched ops x c # touches ops xs (snd (apply_op ops x c))"

fun last_touch :: "'k option list \<Rightarrow> 'k \<Rightarrow> nat option" where
  "last_touch [] k = None"
| "last_touch (t # ts) k =
     (case last_touch ts k of
        Some i \<Rightarrow> Some (Suc i)
      | None \<Rightarrow> if t = Some k then Some 0 else None)"

definition touched_before :: "'k option list \<Rightarrow> 'k \<Rightarrow> 'k \<Rightarrow> bool" where
  "touched_before ts a b =
     (case (last_touch ts a, last_touch ts b) of
        (Some i, Some j) \<Rightarrow> i < j
      | _ \<Rightarrow> False)"

definition recency_inv :: "'k option list \<Rightarrow> ('k, 'a) odict \<Rightarrow> bool" where
  "recency_inv ts d =
     (wf_dict d \<and>
      sorted_wrt (\<lambda>p q. touched_before ts (fst p) (fst q)) d \<and>
      (\<forall>p \<in> set d. last_touch ts (fst p) \<noteq> None))"

text \<open>Helpers for stating properties of sequences of calls.\<close>

fun sets_key :: "string \<Rightarrow> ('v, 'f) cache_op \<Rightarrow> bool" where
  "sets_key k (Set now k' v ttl) = (k' = k)"
| "sets_key k (Get now k') = False"

fun is_set :: "('v, 'f) cache_op \<Rightarrow> bool" where
  "is_set (Set now k v ttl) = True"
| "is_set (Get now k) = False"

text \<open>The floats that the \<open>get\<close> calls of a sequence read from the clock.\<close>

fun get_instants :: "('v, 'f) cache_op list \<Rightarrow> 'f list" where
  "get_instants [] = []"
| "get_instants (Get now k # xs) = now # get_instants xs"
| "get_instants (Set now k v ttl # xs) = get_instants xs"

section \<open>Settings and the backend selector (settings.py, caching.py)\<close>

record Settings =
  app_name :: string
  environment :: string
  cache_backend :: string
  cache_ttl_seconds :: int
  redis_url :: "string option"
  queue_worker_concurrency :: int
  enforce_https :: bool
  hsts_max_age :: int

definition default_settings :: Settings where
  "default_settings =
     \<lparr>app_name = ''System Design API'', environment = ''development'',
      cache_backend = ''memory'', cache_ttl_seconds = 60, redis_url = None,
      queue_worker_concurrency = 2, enforce_https = True, hsts_max_age = 31536000\<rparr>"

text \<open>\<open>str.lower()\<close> on ASCII text: the letters A to Z move to a to z.\<close>

definition lower_char :: "char \<Rightarrow> char" where
  "lower_char ch =
     (let n = (of_char ch :: nat) in if 65 \<le> n \<and> n \<le> 90 then char_of (n + 32) else ch)"

definition lower :: "string \<Rightarrow> string" where
  "lower s = map lower_char s"

text \<open>
  The module \<open>redis.asyncio\<close> is outside the repository. It is a parameter: \<open>None\<close> when
  the import failed (\<open>aioredis = None\<close>), otherwise its \<open>from_url\<close>, which returns a
  client or raises.
\<close>

type_synonym 'c aioredis = "(string \<Rightarrow> py_exc + 'c) option"

datatype ('v, 'f, 'c) CacheBackend = Memory "('v, 'f) MemoryTTLCache" | Redis 'c

definition RedisCache_init :: "'c aioredis \<Rightarrow> string \<Rightarrow> py_exc + ('v, 'f, 'c) CacheBackend" where
  "RedisCache_init aioredis url =
     (case aioredis of
        None \<Rightarrow> Inl (Exc RuntimeError ''redis.asyncio not available. Ensure 'redis' package is installed.'')
      | Some from_url \<Rightarrow> map_sum id Redis (from_url url))"

text \<open>The truth value of an \<open>Optional[str]\<close>: \<open>None\<close> and the empty string are false.\<close>

definition truthy :: "string option \<Rightarrow> bool" where
  "truthy u = (case u of None \<Rightarrow> False | Some s \<Rightarrow> s \<noteq> [])"

text \<open>
  \<open>get_cache\<close> reads and writes the module global \<open>_cache\<close>: the model takes its value
  and returns the backend together with the new value of the global; a call that raises
  leaves the global as it was.
\<close>

definition get_cache ::
  "'c aioredis \<Rightarrow> Settings \<Rightarrow> ('v, 'f, 'c) CacheBackend option
     \<Rightarrow> py_exc + (('v, 'f, 'c) CacheBackend \<times> ('v, 'f, 'c) CacheBackend option)" where
  "get_cache aioredis settings cache =
     (case cache of
        Some b \<Rightarrow> Inr (b, cache)
      | None \<Rightarrow>
          if lower (cache_backend settings) = ''redis'' \<and> truthy (redis_url settings) then
            map_sum id (\<lambda>b. (b, Some b)) (RedisCache_init aioredis (the (redis_url settings)))
          else Inr (Memory (MemoryTTLCache_init 1024), Some (Memory (MemoryTTLCache_init 1024))))"

section \<open>Jobs and the in-memory queue (queue.py)\<close>

subsection \<open>Payload values and the representative task\<close>

text \<open>
  A payload is a JSON object. \<open>bool\<close> is a subclass of \<open>int\<close> in Python, so
  \<open>isinstance(v, (int, float))\<close> holds of booleans, integers and floats.
\<close>

datatype 'f pyval =
    PNone
  | PBool bool
  | PInt int
  | PFloat 'f
  | PStr string
  | PList "'f pyval list"
  | PDict "(string \<times> 'f pyval) list"

fun isinstance_int_float :: "'f pyval \<Rightarrow> bool" where
  "isinstance_int_float (PBool b) = True"
| "isinstance_int_float (PInt i) = True"
| "isinstance_int_float (PFloat x) = True"
| "isinstance_int_float v = False"

definition unsupported :: py_exc where
  "unsupported = Exc TypeError ''unsupported operand type(s) for +''"

text \<open>
  The number that a value is in arithmetic: \<open>True\<close> is the integer 1 and \<open>False\<close> the
  integer 0. Other values are not numbers, and adding one to a number raises
  \<open>TypeError\<close>.
\<close>

fun as_number :: "'f pyval \<Rightarrow> py_exc + (int + 'f)" where
  "as_number (PBool b) = Inr (Inl (if b then 1 else 0))"
| "as_number (PInt i) = Inr (Inl i)"
| "as_number (PFloat x) = Inr (Inr x)"
| "as_number v = Inl unsupported"

fun as_numbers :: "'f pyval list \<Rightarrow> py_exc + (int + 'f) list" where
  "as_numbers [] = Inr []"
| "as_numbers (v # vs) =
     (case as_number v of
        Inl e \<Rightarrow> Inl e
      | Inr n \<Rightarrow> (case as_numbers vs of Inl e \<Rightarrow> Inl e | Inr ns \<Rightarrow> Inr (n # ns)))"

text \<open>The exact total of a list of integers; \<open>None\<close> when a float occurs in it.\<close>

fun int_total :: "(int + 'f) list \<Rightarrow> int option" where
  "int_total [] = Some 0"
| "int_total (Inl i # ns) = (case int_total ns of None \<Rightarrow> None | Some n \<Rightarrow> Some (i + n))"
| "int_total (Inr x # ns) = None"

text \<open>
  \<open>sum(iterable)\<close> on numbers: integers add up exactly, to an integer; when a float
  occurs the result is the float that the interpreter computes.
\<close>

definition py_sum :: "'f float_ops \<Rightarrow> 'f pyval list \<Rightarrow> py_exc + 'f pyval" where
  "py_sum ops vs =
     (case as_numbers vs of
        Inl e \<Rightarrow> Inl e
      | Inr ns \<Rightarrow>
          (case int_total ns of
             Some n \<Rightarrow> Inr (PInt n)
           | None \<Rightarrow>
               (case float_sum ops ns of
                  None \<Rightarrow> Inl overflow
                | Some x \<Rightarrow> Inr (PFloat x))))"

text \<open>\<open>sum(v for v in job.payload.values() if isinstance(v, (int, float)))\<close>\<close>

definition task :: "'f float_ops \<Rightarrow> (string, 'f pyval) odict \<Rightarrow> py_exc + 'f pyval" where
  "task ops payload = py_sum ops (filter isinstance_int_float (map snd payload))"

subsection \<open>Jobs, the queue and its workers\<close>

record 'f Job =
  job_id :: string
  payload :: "(string, 'f pyval) odict"
  status :: string
  result :: "'f pyval"
  error :: "string option"

text \<open>
  A \<open>Job\<close> object is shared by the registry, the channel, the worker that holds it and
  the caller of \<open>enqueue\<close>. The objects live in a heap, the list \<open>objects\<close>, and a
  reference is an index into it. A worker task is either suspended in
  \<open>await self.queue.get()\<close> (\<open>Waiting\<close>), suspended in \<open>await asyncio.sleep(0.5)\<close>
  holding a job (\<open>Working\<close>), or has left its loop (\<open>Stopped\<close>).
\<close>

datatype worker = Waiting | Working nat | Stopped

record 'f InMemoryJobQueue =
  objects :: "'f Job list"
  queue :: "nat list"
  jobs :: "(string, nat) odict"
  workers :: "worker list"
  shutdown :: bool

definition InMemoryJobQueue_init :: "'f InMemoryJobQueue" where
  "InMemoryJobQueue_init = \<lparr>objects = [], queue = [], jobs = [], workers = [], shutdown = False\<rparr>"

definition start :: "Settings \<Rightarrow> 'f InMemoryJobQueue \<Rightarrow> 'f InMemoryJobQueue" where
  "start settings q =
     q\<lparr>workers := workers q @ replicate (nat (max 1 (queue_worker_concurrency settings))) Waiting\<rparr>"

text \<open>
  \<open>stop\<close> sets the event and cancels every task. \<open>CancelledError\<close> is raised at the
  task's suspension point: at \<open>queue.get()\<close> the worker breaks out of its loop; at
  \<open>sleep\<close> the clause \<open>except Exception\<close> does not catch it, so the worker ends and
  the job it holds keeps the status it has.
\<close>

definition stop :: "'f InMemoryJobQueue \<Rightarrow> 'f InMemoryJobQueue" where
  "stop q = q\<lparr>shutdown := True, workers := map (\<lambda>w. Stopped) (workers q)\<rparr>"

text \<open>
  \<open>enqueue\<close>: the first argument is the string that \<open>str(uuid.uuid4())\<close> returned. The
  channel is unbounded, so \<open>put\<close> does not suspend. The result is the reference to the
  new job, and the new state.
\<close>

definition new_job :: "string \<Rightarrow> (string, 'f pyval) odict \<Rightarrow> 'f Job" where
  "new_job uuid p = \<lparr>job_id = uuid, payload = p, status = ''queued'', result = PNone, error = None\<rparr>"

definition enqueue ::
  "string \<Rightarrow> (string, 'f pyval) odict \<Rightarrow> 'f InMemoryJobQueue \<Rightarrow> nat \<times> 'f InMemoryJobQueue" where
  "enqueue uuid p q =
     (let job = length (objects q) in
      (job, q\<lparr>objects := objects q @ [new_job uuid p],
              jobs := setitem uuid job (jobs q),
              queue := queue q @ [job]\<rparr>))"

text \<open>
  One turn of a worker from \<open>queue.get()\<close> to \<open>sleep\<close>: it takes the head of the
  channel and marks the job. \<open>None\<close>: the worker cannot take this turn.
\<close>

definition worker_dequeue :: "nat \<Rightarrow> 'f InMemoryJobQueue \<Rightarrow> 'f InMemoryJobQueue option" where
  "worker_dequeue i q =
     (if i < length (workers q) \<and> workers q ! i = Waiting \<and> \<not> shutdown q then
        (case queue q of
           [] \<Rightarrow> None
         | job # rest \<Rightarrow>
             if job < length (objects q) then
               Some (q\<lparr>queue := rest,
                       objects := (objects q)[job := (objects q ! job)\<lparr>status := ''processing''\<rparr>],
                       workers := (workers q)[i := Working job]\<rparr>)
             else None)
      else None)"

text \<open>
  The rest of the \<open>try\<close> statement, after \<open>sleep\<close> returns: the job as the worker
  leaves it, and the exception that leaves the statement, if any.
\<close>

definition process :: "'f float_ops \<Rightarrow> 'f Job \<Rightarrow> 'f Job \<times> py_exc option" where
  "process ops job =
     (case task ops (payload job) of
        Inr result_sum \<Rightarrow> (job\<lparr>result := PDict [(''sum'', result_sum)], status := ''done''\<rparr>, None)
      | Inl exc \<Rightarrow>
          if is_Exception exc then (job\<lparr>status := ''failed'', error := Some (str_exc exc)\<rparr>, None)
          else (job, Some exc))"

definition worker_finish :: "'f float_ops \<Rightarrow> nat \<Rightarrow> 'f InMemoryJobQueue \<Rightarrow> 'f InMemoryJobQueue option" where
  "worker_finish ops i q =
     (if i < length (workers q) then
        (case workers q ! i of
           Working job \<Rightarrow>
             if job < length (objects q) then
               (case process ops (objects q ! job) of
                  (job', None) \<Rightarrow>
                    Some (q\<lparr>objects := (objects q)[job := job'], workers := (workers q)[i := Waiting]\<rparr>)
                | (job', Some exc) \<Rightarrow>
                    Some (q\<lparr>objects := (objects q)[job := job'], workers := (workers q)[i := Stopped]\<rparr>))
             else None
         | _ \<Rightarrow> None)
      else None)"

definition job_view :: "'f Job \<Rightarrow> 'f pyval" where
  "job_view job =
     PDict [(''status'', PStr (status job)),
            (''result'', result job),
            (''error'', case error job of None \<Rightarrow> PNone | Some m \<Rightarrow> PStr m)]"

definition snapshot :: "'f InMemoryJobQueue \<Rightarrow> (string, 'f pyval) odict" where
  "snapshot q = map (\<lambda>(jid, job). (jid, job_view (objects q ! job))) (jobs q)"

subsection \<open>The process as a sequence of turns\<close>

text \<open>
  The tasks run on one event loop, so the state changes in turns that do not
  interleave: a call of \<open>start\<close>, \<open>stop\<close> or \<open>enqueue\<close>, or one worker running from a
  suspension point to the next.
\<close>

datatype 'f event =
    Start
  | Stop
  | Enqueue string "(string, 'f pyval) odict"
  | Dequeue nat
  | Finish nat

fun exec :: "'f float_ops \<Rightarrow> Settings \<Rightarrow> 'f event \<Rightarrow> 'f InMemoryJobQueue \<Rightarrow> 'f InMemoryJobQueue option" where
  "exec ops st Start q = Some (start st q)"
| "exec ops st Stop q = Some (stop q)"
| "exec ops st (Enqueue uuid p) q = Some (snd (enqueue uuid p q))"
| "exec ops st (Dequeue i) q = worker_dequeue i q"
| "exec ops st (Finish i) q = worker_finish ops i q"

fun run :: "'f float_ops \<Rightarrow> Settings \<Rightarrow> 'f event list \<Rightarrow> 'f InMemoryJobQueue \<Rightarrow> 'f InMemoryJobQueue option" where
  "run ops st [] q = Some q"
| "run ops st (ev # evs) q = (case exec ops st ev q of None \<Rightarrow> None | Some q' \<Rightarrow> run ops st evs q')"

fun enqueued_ids :: "'f event list \<Rightarrow> string list" where
  "enqueued_ids [] = []"
| "enqueued_ids (Enqueue uuid p # evs) = uuid # enqueued_ids evs"
| "enqueued_ids (ev # evs) = enqueued_ids evs"

text \<open>
  An instance of the float parameters for running the model on concrete inputs: floats
  as reals that are added without rounding, integers converted when they are within the
  range of a double (\<open>float(i)\<close> raises from \<open>2 ** 1024 - 2 ** 970\<close> on), and \<open>sum\<close>
  adding from the left. It agrees with double arithmetic wherever every sum it forms is
  a double.
\<close>

definition sample_of_int :: "int \<Rightarrow> real option" where
  "sample_of_int i = (if \<bar>i\<bar> < 2 ^ 1024 - 2 ^ 970 then Some (real_of_int i) else None)"

fun sample_sum_from :: "int + real \<Rightarrow> (int + real) list \<Rightarrow> real option" where
  "sample_sum_from (Inl a) [] = Some (real_of_int a)"
| "sample_sum_from (Inr x) [] = Some x"
| "sample_sum_from (Inl a) (Inl i # ns) = sample_sum_from (Inl (a + i)) ns"
| "sample_sum_from (Inl a) (Inr y # ns) =
     (case sample_of_int a of None \<Rightarrow> None | Some x \<Rightarrow> sample_sum_from (Inr (x + y)) ns)"
| "sample_sum_from (Inr x) (Inl i # ns) =
     (case sample_of_int i of None \<Rightarrow> None | Some y \<Rightarrow> sample_sum_from (Inr (x + y)) ns)"
| "sample_sum_from (Inr x) (Inr y # ns) = sample_sum_from (Inr (x + y)) ns"

definition sample_floats :: "real float_ops" where
  "sample_floats =
     \<lparr>float_add = (\<lambda>x y. x + y),
      float_of_int = sample_of_int,
      float_le = (\<lambda>x y. x \<le> y),
      float_sum = sample_sum_from (Inl 0)\<rparr>"

subsection \<open>Invariants of the queue\<close>

text \<open>
  A job is well formed when its fields agree with its status: no result and no error
  while it is queued or processing, the result of the task on its payload once done, the
  message of the exception the task raised once failed.
\<close>

definition job_ok :: "'f float_ops \<Rightarrow> 'f Job \<Rightarrow> bool" where
  "job_ok ops j =
     (if status j = ''queued'' \<or> status j = ''processing'' then result j = PNone \<and> error j = None
      else if status j = ''done'' then
        (case task ops (payload j) of
           Inr s \<Rightarrow> result j = PDict [(''sum'', s)] \<and> error j = None
         | Inl e \<Rightarrow> False)
      else if status j = ''failed'' then
        (case task ops (payload j) of
           Inl e \<Rightarrow> error j = Some (str_exc e) \<and> result j = PNone
         | Inr s \<Rightarrow> False)
      else False)"

definition inv_jobs :: "'f float_ops \<Rightarrow> 'f InMemoryJobQueue \<Rightarrow> bool" where
  "inv_jobs ops q = (\<forall>j \<in> set (objects q). job_ok ops j)"

text \<open>
  The channel holds each reference once, and only references to queued jobs.
\<close>

definition inv_queue :: "'f InMemoryJobQueue \<Rightarrow> bool" where
  "inv_queue q =
     (distinct (queue q) \<and>
      (\<forall>r \<in> set (queue q). r < length (objects q) \<and> status (objects q ! r) = ''queued''))"

text \<open>
  A worker that holds a job holds a job that is processing, and no two workers hold the
  same job.
\<close>

definition holds :: "'f InMemoryJobQueue \<Rightarrow> nat \<Rightarrow> nat \<Rightarrow> bool" where
  "holds q i r = (i < length (workers q) \<and> workers q ! i = Working r)"

definition inv_workers :: "'f InMemoryJobQueue \<Rightarrow> bool" where
  "inv_workers q =
     ((\<forall>i r. holds q i r \<longrightarrow> r < length (objects q) \<and> status (objects q ! r) = ''processing'') \<and>
      (\<forall>i j r. holds q i r \<and> holds q j r \<longrightarrow> i = j))"

definition queue_inv :: "'f float_ops \<Rightarrow> 'f InMemoryJobQueue \<Rightarrow> bool" where
  "queue_inv ops q = (inv_jobs ops q \<and> inv_queue q \<and> inv_workers q)"

text \<open>
  What one turn may do to one job: nothing, the worker's marking after \<open>queue.get()\<close>,
  or the rest of the \<open>try\<close> statement.
\<close>

definition job_step :: "'f float_ops \<Rightarrow> 'f Job \<Rightarrow> 'f Job \<Rightarrow> bool" where
  "job_step ops j j' =
     (j' = j \<or>
      status j = ''queued'' \<and> j' = j\<lparr>status := ''processing''\<rparr> \<or>
      status j = ''processing'' \<and> j' = fst (process ops j))"

text \<open>
  The registry and the identifiers of the jobs in the heap: every entry of the registry
  refers to the job of that identifier, and every identifier has an entry.
\<close>

definition reg_ok :: "(string, nat) odict \<Rightarrow> string list \<Rightarrow> bool" where
  "reg_ok d ids =
     ((\<forall>jid r. map_of d jid = Some r \<longrightarrow> r < length ids \<and> ids ! r = jid) \<and>
      set (keys d) = set ids)"






section \<open>Properties of the dictionary operations\<close>

lemma fold_discard: "fold discard ks d = filter (\<lambda>p. fst p \<notin> set ks) d"
  by (induction ks arbitrary: d) (auto simp: discard_def intro: filter_cong)

lemma wf_dict_filter: "wf_dict d \<Longrightarrow> wf_dict (filter P d)"
  unfolding wf_dict_def keys_def by (simp add: distinct_map_filter)

lemma wf_dict_discard: "wf_dict d \<Longrightarrow> wf_dict (discard k d)"
  unfolding discard_def by (rule wf_dict_filter)

lemma contains_discard: "contains k' (discard k d) \<longleftrightarrow> k' \<noteq> k \<and> contains k' d"
  by (auto simp: contains_def discard_def keys_def)

lemma wf_dict_drop: "wf_dict d \<Longrightarrow> wf_dict (drop n d)"
  unfolding wf_dict_def keys_def by (simp add: drop_map[symmetric])

lemma wf_dict_snoc: "wf_dict d \<Longrightarrow> \<not> contains k d \<Longrightarrow> wf_dict (d @ [(k, e)])"
  unfolding wf_dict_def keys_def contains_def by simp

lemma wf_dict_discard_snoc: "wf_dict d \<Longrightarrow> wf_dict (discard k d @ [(k, e)])"
  by (simp add: wf_dict_snoc wf_dict_discard contains_discard)

lemma keys_setitem: "set (keys (setitem k v d)) = insert k (set (keys d))"
  by (induction d) (auto simp: keys_def)

lemma wf_dict_setitem: "wf_dict d \<Longrightarrow> wf_dict (setitem k v d)"
proof (induction d)
  case Nil
  then show ?case by (simp add: wf_dict_def keys_def)
next
  case (Cons p d)
  then show ?case using keys_setitem[of k v d]
    by (auto simp: wf_dict_def keys_def)
qed

lemma setitem_new: "\<not> contains k d \<Longrightarrow> setitem k v d = d @ [(k, v)]"
  by (induction d) (auto simp: contains_def keys_def)

lemma contains_map_of: "contains k d \<longleftrightarrow> map_of d k \<noteq> None"
  by (simp add: contains_def keys_def map_of_eq_None_iff)

lemma pop_contains: "contains k d \<Longrightarrow> \<exists>e. map_of d k = Some e \<and> pop k d = Inr (e, discard k d)"
  by (auto simp: pop_def contains_map_of)

lemma length_setitem: "length (setitem k v d) = (if contains k d then length d else Suc (length d))"
  by (induction d) (auto simp: contains_def keys_def)

lemma discard_absent: "\<not> contains k d \<Longrightarrow> discard k d = d"
  by (auto simp: discard_def contains_def keys_def filter_id_conv)

lemma length_discard_less: "contains k d \<Longrightarrow> length (discard k d) < length d"
proof -
  assume "contains k d"
  then obtain p where "p \<in> set d" "fst p = k" by (auto simp: contains_def keys_def)
  then show ?thesis
    unfolding discard_def by (intro length_filter_less[of p]) simp_all
qed

lemma length_discard_present:
  "wf_dict d \<Longrightarrow> contains k d \<Longrightarrow> Suc (length (discard k d)) = length d"
proof (induction d)
  case Nil
  then show ?case by (simp add: contains_def keys_def)
next
  case (Cons p d)
  show ?case
  proof (cases "fst p = k")
    case True
    with Cons.prems(1) have "\<not> contains k d" by (auto simp: wf_dict_def keys_def contains_def)
    then have "discard k d = d" by (rule discard_absent)
    with True show ?thesis by (simp add: discard_def)
  next
    case False
    with Cons.prems have "wf_dict d" "contains k d" by (auto simp: wf_dict_def keys_def contains_def)
    with Cons.IH False show ?thesis by (simp add: discard_def)
  qed
qed

lemma hd_discard_key:
  assumes "discard k d \<noteq> []"
  shows "fst (hd (discard k d @ xs)) \<noteq> k"
proof -
  from assms have "hd (discard k d @ xs) \<in> set (discard k d)" by simp
  then show ?thesis by (simp add: discard_def)
qed

lemma drop_one: "drop (Suc 0) xs = tl xs"
  by (simp add: drop_Suc)

lemma length_drop_le: "0 \<le> m \<Longrightarrow> int (length (drop (length d - nat m) d)) \<le> m"
  by simp

lemma map_of_filter_distinct:
  "distinct (map fst d) \<Longrightarrow>
   map_of (filter (\<lambda>p. P (snd p)) d) k =
     (case map_of d k of None \<Rightarrow> None | Some e \<Rightarrow> if P e then Some e else None)"
proof (induction d)
  case Nil
  then show ?case by simp
next
  case (Cons p d)
  obtain k' e' where p: "p = (k', e')" by (cases p)
  from Cons.prems p have notin: "map_of d k' = None"
    by (simp add: map_of_eq_None_iff)
  from Cons show ?case using notin p
    by (auto split: option.splits)
qed

lemma map_of_snoc_new: "\<not> contains k d \<Longrightarrow> map_of (d @ [(k, e)]) k = Some e"
  by (simp add: contains_map_of map_add_def)

lemma map_of_drop_last:
  assumes "\<not> contains k d" "n \<le> length d"
  shows "map_of (drop n (d @ [(k, e)])) k = Some e"
proof -
  have "\<not> contains k (drop n d)"
    using assms(1) unfolding contains_def keys_def by (auto dest: in_set_dropD)
  then have "map_of (drop n d @ [(k, e)]) k = Some e" by (rule map_of_snoc_new)
  with assms(2) show ?thesis by simp
qed

lemma map_of_discard: "map_of (discard k' d) k = (if k = k' then None else map_of d k)"
  by (induction d) (auto simp: discard_def)

lemma map_of_snoc_other: "k \<noteq> k' \<Longrightarrow> map_of (d @ [(k', e)]) k = map_of d k"
  by (induction d) auto

lemma map_of_drop_cases:
  assumes "wf_dict d"
  shows "map_of (drop n d) k = None \<or> map_of (drop n d) k = map_of d k"
proof (cases "map_of (drop n d) k")
  case None
  then show ?thesis by simp
next
  case (Some e)
  then have "(k, e) \<in> set (drop n d)" by (rule map_of_SomeD)
  then have "(k, e) \<in> set d" by (rule in_set_dropD)
  with assms have "map_of d k = Some e" by (simp add: wf_dict_def keys_def)
  with Some show ?thesis by simp
qed

section \<open>Properties of the in-process cache\<close>

text \<open>
  On a dictionary with distinct keys the purge pass keeps exactly the entries that have
  not expired, and the eviction loop of a cache with a non-negative bound drops entries
  from the head until the bound holds, without raising.
\<close>

lemma purge_expired_filter:
  assumes "wf_dict d"
  shows "purge_expired ops now d = filter (\<lambda>p. \<not> is_expired ops now (snd p)) d"
proof -
  have "fst p \<notin> fst ` {q \<in> set d. is_expired ops now (snd q)} \<longleftrightarrow> \<not> is_expired ops now (snd p)"
    if "p \<in> set d" for p
  proof
    assume "fst p \<notin> fst ` {q \<in> set d. is_expired ops now (snd q)}"
    with that show "\<not> is_expired ops now (snd p)" by auto
  next
    assume ne: "\<not> is_expired ops now (snd p)"
    show "fst p \<notin> fst ` {q \<in> set d. is_expired ops now (snd q)}"
    proof
      assume "fst p \<in> fst ` {q \<in> set d. is_expired ops now (snd q)}"
      then obtain q where q: "q \<in> set d" "is_expired ops now (snd q)" "fst q = fst p" by auto
      from assms that q(1,3) have "q = p"
        unfolding wf_dict_def keys_def by (metis eq_key_imp_eq_value prod.collapse)
      with q(2) ne show False by simp
    qed
  qed
  then show ?thesis
    unfolding purge_expired_def Let_def fold_discard by (auto intro!: filter_cong)
qed

lemma evict_if_needed_drop:
  "0 \<le> m \<Longrightarrow> evict_if_needed m d = Inr (drop (length d - nat m) d)"
proof (induction d)
  case Nil
  then show ?case by simp
next
  case (Cons p d)
  show ?case
  proof (cases "int (length (p # d)) > m")
    case True
    then have "length (p # d) - nat m = Suc (length d - nat m)" using Cons.prems by simp
    with True Cons show ?thesis by simp
  next
    case False
    then have "length (p # d) - nat m = 0" by simp
    with False show ?thesis by simp
  qed
qed

text \<open>
  The expiry: the only exception is the \<open>OverflowError\<close> of the conversion.
\<close>

lemma expiry_cases:
  "expiry ops now ttl =
     (case ttl of
        None \<Rightarrow> Inr None
      | Some t \<Rightarrow>
          if t = 0 then Inr None
          else (case float_of_int ops t of
                  None \<Rightarrow> Inl overflow
                | Some x \<Rightarrow> Inr (Some (float_add ops now x))))"
  by (simp add: expiry_def split: option.splits)

lemma expiry_Inl: "expiry ops now ttl = Inl e \<Longrightarrow> e = overflow"
  by (auto simp: expiry_def split: option.splits if_splits)

lemma expiry_Inr:
  assumes "(ttl = None \<or> ttl = Some 0) \<and> xp = None \<or>
           (\<exists>t y. ttl = Some t \<and> t \<noteq> 0 \<and> float_of_int ops t = Some y \<and>
                  xp = Some (float_add ops now y))"
  shows "expiry ops now ttl = Inr xp"
  using assms by (auto simp: expiry_def)

text \<open>
  Closed forms of \<open>get\<close> and \<open>set\<close>.
\<close>

lemma get_eq:
  assumes "wf_dict (store c)"
  shows "get ops now k c =
    (let d = filter (\<lambda>p. \<not> is_expired ops now (snd p)) (store c) in
     case map_of d k of
       None \<Rightarrow> Inr (None, c\<lparr>store := d\<rparr>)
     | Some e \<Rightarrow> Inr (Some (val e), c\<lparr>store := discard k d @ [(k, e)]\<rparr>))"
proof -
  let ?d = "filter (\<lambda>p. \<not> is_expired ops now (snd p)) (store c)"
  have pe: "purge_expired ops now (store c) = ?d" using assms by (rule purge_expired_filter)
  show ?thesis
  proof (cases "map_of ?d k")
    case None
    then have "\<not> contains k ?d" by (simp add: contains_map_of)
    with None pe show ?thesis by (simp add: get_def Let_def)
  next
    case (Some e)
    then have ct: "contains k ?d" by (simp add: contains_map_of)
    have "\<not> contains k (discard k ?d)" by (simp add: contains_discard)
    then have "setitem k e (discard k ?d) = discard k ?d @ [(k, e)]" by (rule setitem_new)
    with Some ct pe show ?thesis by (simp add: get_def Let_def pop_def)
  qed
qed

lemma set_item_raises: "expiry ops now ttl = Inl e \<Longrightarrow> set_item ops now k v ttl c = (Some e, c)"
  by (simp add: set_item_def)

lemma set_item_eq:
  assumes "wf_dict (store c)" "0 \<le> max_items c" "expiry ops now ttl = Inr xp"
  shows "set_item ops now k v ttl c =
     (let d = discard k (store c) @ [(k, \<lparr>val = v, expires_at = xp\<rparr>)]
      in (None, c\<lparr>store := drop (length d - nat (max_items c)) d\<rparr>))"
proof -
  let ?e = "\<lparr>val = v, expires_at = xp\<rparr>"
  have nd: "\<not> contains k (discard k (store c))" by (simp add: contains_discard)
  show ?thesis
  proof (cases "contains k (store c)")
    case True
    from pop_contains[OF True] obtain e where "pop k (store c) = Inr (e, discard k (store c))" by blast
    with True assms(3) show ?thesis
      by (simp add: set_item_def Let_def setitem_new[OF nd] evict_if_needed_drop[OF assms(2)])
  next
    case False
    then have "discard k (store c) = store c"
      by (auto simp: discard_def contains_def keys_def filter_id_conv)
    with False assms(3) show ?thesis
      using setitem_new[OF False, of ?e]
      by (simp add: set_item_def Let_def evict_if_needed_drop[OF assms(2)])
  qed
qed

lemma get_lookup:
  assumes "wf_dict (store c)"
  shows "\<exists>c'. get ops now k c =
           Inr (case map_of (store c) k of
                  None \<Rightarrow> None
                | Some e \<Rightarrow> if is_expired ops now e then None else Some (val e), c')"
proof -
  have "map_of (filter (\<lambda>p. \<not> is_expired ops now (snd p)) (store c)) k =
        (case map_of (store c) k of None \<Rightarrow> None | Some e \<Rightarrow> if \<not> is_expired ops now e then Some e else None)"
    using assms unfolding wf_dict_def keys_def by (rule map_of_filter_distinct)
  then show ?thesis
    unfolding get_eq[OF assms] Let_def by (auto split: option.splits)
qed

lemma returned_get:
  assumes "wf_dict (store c)"
  shows "returned (get ops now k c) =
           Some (case map_of (store c) k of
                   None \<Rightarrow> None
                 | Some e \<Rightarrow> if is_expired ops now e then None else Some (val e))"
proof -
  from get_lookup[OF assms, of ops now k] obtain c' where
    "get ops now k c = Inr (case map_of (store c) k of
                  None \<Rightarrow> None
                | Some e \<Rightarrow> if is_expired ops now e then None else Some (val e), c')" by blast
  then show ?thesis by (simp add: returned_def)
qed

lemma set_item_full:
  assumes "wf_dict (store c)" and "int (length (store c)) = max_items c"
    and "\<not> contains k' (store c)" and "expiry ops now' ttl = Inr xp"
  shows "set_item ops now' k' v' ttl c =
           (None, c\<lparr>store := tl (store c @ [(k', \<lparr>val = v', expires_at = xp\<rparr>)])\<rparr>)"
proof -
  from assms(2) have m0: "0 \<le> max_items c" by linarith
  from assms(2) have n:
    "length (store c @ [(k', \<lparr>val = v', expires_at = xp\<rparr>)]) - nat (max_items c) = Suc 0"
    by simp
  show ?thesis
    unfolding set_item_eq[OF assms(1) m0 assms(4)] Let_def discard_absent[OF assms(3)] n drop_one ..
qed

lemma get_unexpired_hit:
  assumes "wf_dict (store c)" and "\<forall>p \<in> set (store c). \<not> is_expired ops now (snd p)"
    and "map_of (store c) k = Some e"
  shows "get ops now k c = Inr (Some (val e), c\<lparr>store := discard k (store c) @ [(k, e)]\<rparr>)"
proof -
  from assms(2) have "filter (\<lambda>p. \<not> is_expired ops now (snd p)) (store c) = store c"
    by (simp add: filter_id_conv)
  with assms(3) show ?thesis
    unfolding get_eq[OF assms(1)] Let_def by simp
qed

lemma set_item_stores:
  assumes "wf_dict (store c)" "0 \<le> max_items c" "expiry ops now ttl = Inr xp"
  shows "\<exists>c'. set_item ops now k v ttl c = (None, c') \<and> wf_dict (store c') \<and>
              max_items c' = max_items c \<and>
              (map_of (store c') k = None \<or> map_of (store c') k = Some \<lparr>val = v, expires_at = xp\<rparr>) \<and>
              (1 \<le> max_items c \<longrightarrow> map_of (store c') k = Some \<lparr>val = v, expires_at = xp\<rparr>)"
proof -
  define e where "e = \<lparr>val = v, expires_at = xp\<rparr>"
  define d where "d = discard k (store c)"
  define n where "n = length (d @ [(k, e)]) - nat (max_items c)"
  have eq: "set_item ops now k v ttl c = (None, c\<lparr>store := drop n (d @ [(k, e)])\<rparr>)"
    unfolding set_item_eq[OF assms] Let_def n_def d_def e_def ..
  have nk: "\<not> contains k d" unfolding d_def by (simp add: contains_discard)
  have wfd: "wf_dict (d @ [(k, e)])" unfolding d_def using assms(1) by (rule wf_dict_discard_snoc)
  then have wf: "wf_dict (drop n (d @ [(k, e)]))" by (rule wf_dict_drop)
  from nk have full: "map_of (d @ [(k, e)]) k = Some e" by (rule map_of_snoc_new)
  from map_of_drop_cases[OF wfd, of n k] full
  have either: "map_of (drop n (d @ [(k, e)])) k = None \<or> map_of (drop n (d @ [(k, e)])) k = Some e"
    by simp
  have "map_of (drop n (d @ [(k, e)])) k = Some e" if "1 \<le> max_items c"
  proof -
    from that have "n \<le> length d" unfolding n_def by simp
    with nk show ?thesis by (rule map_of_drop_last)
  qed
  with eq wf either show ?thesis unfolding e_def by simp
qed

text \<open>
  The invariant \<open>cache_inv\<close> is kept by every call, and with a non-negative bound the
  only exception a call raises is the \<open>OverflowError\<close> of the expiry.
\<close>

lemma get_inv:
  assumes "cache_inv c"
  shows "\<exists>r c'. get ops now k c = Inr (r, c') \<and> cache_inv c' \<and> max_items c' = max_items c"
proof -
  let ?d = "filter (\<lambda>p. \<not> is_expired ops now (snd p)) (store c)"
  from assms have wf: "wf_dict (store c)" and le: "int (length (store c)) \<le> max_items c"
    by (simp_all add: cache_inv_def)
  have "length ?d \<le> length (store c)" by simp
  then have len: "int (length ?d) \<le> int (length (store c))" by simp
  have wfd: "wf_dict ?d" using wf by (rule wf_dict_filter)
  show ?thesis
  proof (cases "map_of ?d k")
    case None
    from len le have "int (length ?d) \<le> max_items c" by linarith
    with None wfd show ?thesis
      unfolding get_eq[OF wf] Let_def by (simp add: cache_inv_def)
  next
    case (Some e)
    then have "contains k ?d" by (simp add: contains_map_of)
    then have "length (discard k ?d) < length ?d" by (rule length_discard_less)
    then have "int (length (discard k ?d @ [(k, e)])) \<le> int (length ?d)" by simp
    with len le have "int (length (discard k ?d @ [(k, e)])) \<le> max_items c" by linarith
    with Some wf_dict_discard_snoc[OF wfd, of k e] show ?thesis
      unfolding get_eq[OF wf] Let_def by (simp add: cache_inv_def)
  qed
qed

lemma set_item_inv:
  assumes "cache_inv c" "0 \<le> max_items c"
  shows "(fst (set_item ops now k v ttl c) = None \<or> fst (set_item ops now k v ttl c) = Some overflow) \<and>
         cache_inv (snd (set_item ops now k v ttl c)) \<and>
         max_items (snd (set_item ops now k v ttl c)) = max_items c"
proof (cases "expiry ops now ttl")
  case (Inl e)
  then have "e = overflow" by (rule expiry_Inl)
  with Inl assms(1) show ?thesis by (simp add: set_item_raises)
next
  case (Inr xp)
  from assms(1) have wf: "wf_dict (store c)" by (simp add: cache_inv_def)
  define d where "d = discard k (store c) @ [(k, \<lparr>val = v, expires_at = xp\<rparr>)]"
  have "wf_dict (drop (length d - nat (max_items c)) d)"
    unfolding d_def using wf by (intro wf_dict_drop wf_dict_discard_snoc)
  moreover have "int (length (drop (length d - nat (max_items c)) d)) \<le> max_items c"
    using assms(2) by (rule length_drop_le)
  moreover have "set_item ops now k v ttl c = (None, c\<lparr>store := drop (length d - nat (max_items c)) d\<rparr>)"
    unfolding set_item_eq[OF wf assms(2) Inr] d_def Let_def ..
  ultimately show ?thesis
    by (simp add: cache_inv_def)
qed

lemma apply_op_inv:
  assumes "cache_inv c" "0 \<le> max_items c"
  shows "(fst (apply_op ops x c) = None \<or> fst (apply_op ops x c) = Some overflow) \<and>
         cache_inv (snd (apply_op ops x c)) \<and>
         max_items (snd (apply_op ops x c)) = max_items c"
proof (cases x)
  case (Get now k)
  from get_inv[OF assms(1), of ops now k] show ?thesis using Get by auto
next
  case (Set now k v ttl)
  from set_item_inv[OF assms, of ops now k v ttl] show ?thesis using Set by simp
qed

lemma run_ops_inv:
  "cache_inv c \<Longrightarrow> 0 \<le> max_items c \<Longrightarrow>
   cache_inv (run_ops ops xs c) \<and> max_items (run_ops ops xs c) = max_items c \<and>
   set (raised ops xs c) \<subseteq> {overflow}"
proof (induction xs arbitrary: c)
  case Nil
  then show ?case by simp
next
  case (Cons x xs)
  note a = apply_op_inv[OF Cons.prems, of ops x]
  from a have c1: "cache_inv (snd (apply_op ops x c))"
    and m1: "max_items (snd (apply_op ops x c)) = max_items c" by simp_all
  from a have e1: "fst (apply_op ops x c) = None \<or> fst (apply_op ops x c) = Some overflow"
    by simp
  from Cons.IH[OF c1] m1 Cons.prems(2)
  have "cache_inv (run_ops ops xs (snd (apply_op ops x c)))"
    "max_items (run_ops ops xs (snd (apply_op ops x c))) = max_items c"
    "set (raised ops xs (snd (apply_op ops x c))) \<subseteq> {overflow}" by simp_all
  with e1 show ?case by auto
qed

lemma run_ops_append: "run_ops ops (xs @ ys) c = run_ops ops ys (run_ops ops xs c)"
  by (induction xs arbitrary: c) simp_all

lemma touches_append:
  "touches ops (xs @ ys) c = touches ops xs c @ touches ops ys (run_ops ops xs c)"
  by (induction xs arbitrary: c) simp_all

text \<open>
  What a call does to the entry of a key.
\<close>

lemma apply_get_entry:
  assumes "wf_dict (store c)"
  shows "map_of (store (snd (apply_op ops (Get t k') c))) k =
           (case map_of (store c) k of
              None \<Rightarrow> None
            | Some e \<Rightarrow> if is_expired ops t e then None else Some e)"
proof -
  let ?d = "filter (\<lambda>p. \<not> is_expired ops t (snd p)) (store c)"
  have look: "map_of ?d k =
        (case map_of (store c) k of None \<Rightarrow> None | Some e \<Rightarrow> if \<not> is_expired ops t e then Some e else None)" for k
    using assms unfolding wf_dict_def keys_def by (rule map_of_filter_distinct)
  show ?thesis
  proof (cases "map_of ?d k'")
    case None
    then have "store (snd (apply_op ops (Get t k') c)) = ?d"
      by (simp add: get_eq[OF assms] Let_def)
    then show ?thesis by (simp add: look split: option.splits)
  next
    case (Some e')
    then have st: "store (snd (apply_op ops (Get t k') c)) = discard k' ?d @ [(k', e')]"
      by (simp add: get_eq[OF assms] Let_def)
    show ?thesis
    proof (cases "k = k'")
      case True
      have "\<not> contains k' (discard k' ?d)" by (simp add: contains_discard)
      then have "map_of (discard k' ?d @ [(k', e')]) k' = Some e'" by (rule map_of_snoc_new)
      with True Some st look[of k'] show ?thesis by (auto split: option.splits if_splits)
    next
      case False
      then have "map_of (discard k' ?d @ [(k', e')]) k = map_of (discard k' ?d) k"
        by (rule map_of_snoc_other)
      with False have "map_of (discard k' ?d @ [(k', e')]) k = map_of ?d k"
        by (simp add: map_of_discard)
      with st show ?thesis by (simp add: look split: option.splits)
    qed
  qed
qed

lemma apply_get_length:
  assumes "wf_dict (store c)"
  shows "length (store (snd (apply_op ops (Get t k') c))) \<le> length (store c)"
proof -
  let ?d = "filter (\<lambda>p. \<not> is_expired ops t (snd p)) (store c)"
  have len: "length ?d \<le> length (store c)" by simp
  show ?thesis
  proof (cases "map_of ?d k'")
    case None
    with len show ?thesis by (simp add: get_eq[OF assms] Let_def)
  next
    case (Some e')
    then have "contains k' ?d" by (simp add: contains_map_of)
    then have "length (discard k' ?d) < length ?d" by (rule length_discard_less)
    with len have "Suc (length (discard k' ?d)) \<le> length (store c)" by linarith
    with Some show ?thesis by (simp add: get_eq[OF assms] Let_def)
  qed
qed

lemma apply_set_entry:
  assumes "wf_dict (store c)" "0 \<le> max_items c" "k \<noteq> k'"
  shows "map_of (store (snd (apply_op ops (Set t k' v' ttl) c))) k = None \<or>
         map_of (store (snd (apply_op ops (Set t k' v' ttl) c))) k = map_of (store c) k"
proof (cases "expiry ops t ttl")
  case (Inl e)
  then show ?thesis by (simp add: set_item_raises)
next
  case (Inr xp)
  define d where "d = discard k' (store c) @ [(k', \<lparr>val = v', expires_at = xp\<rparr>)]"
  have wf: "wf_dict d" unfolding d_def using assms(1) by (rule wf_dict_discard_snoc)
  have st: "store (snd (apply_op ops (Set t k' v' ttl) c)) = drop (length d - nat (max_items c)) d"
    by (simp add: set_item_eq[OF assms(1,2) Inr] Let_def d_def)
  have "map_of d k = map_of (discard k' (store c)) k"
    unfolding d_def using assms(3) by (rule map_of_snoc_other)
  with assms(3) have "map_of d k = map_of (store c) k" by (simp add: map_of_discard)
  then have "map_of d k = map_of (store c) k" .
  with map_of_drop_cases[OF wf, of "length d - nat (max_items c)" k] st show ?thesis by simp
qed

lemma apply_set_room:
  assumes "wf_dict (store c)" "int (length (store c)) + 1 \<le> max_items c" "k \<noteq> k'"
  shows "map_of (store (snd (apply_op ops (Set t k' v' ttl) c))) k = map_of (store c) k \<and>
         length (store (snd (apply_op ops (Set t k' v' ttl) c))) \<le> Suc (length (store c))"
proof (cases "expiry ops t ttl")
  case (Inl e)
  then show ?thesis by (simp add: set_item_raises)
next
  case (Inr xp)
  from assms(2) have m0: "0 \<le> max_items c" by linarith
  define d where "d = discard k' (store c) @ [(k', \<lparr>val = v', expires_at = xp\<rparr>)]"
  have "length (discard k' (store c)) \<le> length (store c)" by (simp add: discard_def)
  then have len: "length d \<le> Suc (length (store c))" by (simp add: d_def)
  with assms(2) have "length d - nat (max_items c) = 0" by linarith
  then have st: "store (snd (apply_op ops (Set t k' v' ttl) c)) = d"
    by (simp add: set_item_eq[OF assms(1) m0 Inr] Let_def d_def)
  have "map_of d k = map_of (discard k' (store c)) k"
    unfolding d_def using assms(3) by (rule map_of_snoc_other)
  with assms(3) have "map_of d k = map_of (store c) k" by (simp add: map_of_discard)
  then have "map_of d k = map_of (store c) k" .
  with st len show ?thesis by simp
qed

lemma apply_op_wf:
  assumes "wf_dict (store c)" "0 \<le> max_items c"
  shows "wf_dict (store (snd (apply_op ops x c))) \<and> max_items (snd (apply_op ops x c)) = max_items c"
proof (cases x)
  case (Get t k')
  let ?d = "filter (\<lambda>p. \<not> is_expired ops t (snd p)) (store c)"
  have wfd: "wf_dict ?d" using assms(1) by (rule wf_dict_filter)
  show ?thesis
  proof (cases "map_of ?d k'")
    case None
    with wfd Get show ?thesis by (simp add: get_eq[OF assms(1)] Let_def)
  next
    case (Some e')
    with wf_dict_discard_snoc[OF wfd, of k' e'] Get show ?thesis
      by (simp add: get_eq[OF assms(1)] Let_def)
  qed
next
  case (Set t k' v' ttl)
  show ?thesis
  proof (cases "expiry ops t ttl")
    case (Inl e)
    with Set assms(1) show ?thesis by (simp add: set_item_raises)
  next
    case (Inr xp)
    define d where "d = discard k' (store c) @ [(k', \<lparr>val = v', expires_at = xp\<rparr>)]"
    have "wf_dict (drop (length d - nat (max_items c)) d)"
      unfolding d_def using assms(1) by (intro wf_dict_drop wf_dict_discard_snoc)
    with Set show ?thesis
      by (simp add: set_item_eq[OF assms Inr] Let_def d_def)
  qed
qed

text \<open>
  While no call sets the key again, its entry is the one stored or is gone; and it
  stays while no \<open>get\<close> finds it expired and there is room for every key set.
\<close>

lemma run_ops_entry:
  assumes "\<forall>x \<in> set xs. \<not> sets_key k x"
    and "wf_dict (store c)" "0 \<le> max_items c"
    and "map_of (store c) k = None \<or> map_of (store c) k = Some e"
  shows "wf_dict (store (run_ops ops xs c)) \<and>
         (map_of (store (run_ops ops xs c)) k = None \<or> map_of (store (run_ops ops xs c)) k = Some e)"
  using assms
proof (induction xs arbitrary: c)
  case Nil
  then show ?case by simp
next
  case (Cons x xs)
  let ?c1 = "snd (apply_op ops x c)"
  from apply_op_wf[OF Cons.prems(2,3), of ops x]
  have wf1: "wf_dict (store ?c1)" and m1: "0 \<le> max_items ?c1" using Cons.prems(3) by simp_all
  have e1: "map_of (store ?c1) k = None \<or> map_of (store ?c1) k = Some e"
  proof (cases x)
    case (Get t k')
    with apply_get_entry[OF Cons.prems(2), of ops t k' k] Cons.prems(4) show ?thesis
      by (auto split: option.splits if_splits)
  next
    case (Set t k' v' ttl)
    with Cons.prems(1) have "k \<noteq> k'" by auto
    from apply_set_entry[OF Cons.prems(2,3) this, of ops t v' ttl] Set Cons.prems(4)
    show ?thesis by auto
  qed
  from Cons.prems(1) have "\<forall>x \<in> set xs. \<not> sets_key k x" by simp
  from Cons.IH[OF this wf1 m1 e1] show ?case by simp
qed

lemma run_ops_stays:
  assumes "\<forall>x \<in> set xs. \<not> sets_key k x"
    and "\<forall>t \<in> set (get_instants xs). \<not> is_expired ops t e"
    and "wf_dict (store c)"
    and "int (length (store c)) + int (length (filter is_set xs)) \<le> max_items c"
    and "map_of (store c) k = Some e"
  shows "map_of (store (run_ops ops xs c)) k = Some e"
  using assms
proof (induction xs arbitrary: c)
  case Nil
  then show ?case by simp
next
  case (Cons x xs)
  let ?c1 = "snd (apply_op ops x c)"
  from Cons.prems(4) have m0: "0 \<le> max_items c" by linarith
  from apply_op_wf[OF Cons.prems(3) m0, of ops x]
  have wf1: "wf_dict (store ?c1)" and m1: "max_items ?c1 = max_items c" by simp_all
  from Cons.prems(1) have n1: "\<forall>x \<in> set xs. \<not> sets_key k x" by simp
  show ?case
  proof (cases x)
    case (Get t k')
    with Cons.prems(2) have ne: "\<not> is_expired ops t e" and
      g1: "\<forall>t \<in> set (get_instants xs). \<not> is_expired ops t e" by simp_all
    from apply_get_entry[OF Cons.prems(3), of ops t k' k] Cons.prems(5) ne Get
    have e1: "map_of (store ?c1) k = Some e" by simp
    from apply_get_length[OF Cons.prems(3), of ops t k'] Get
    have "int (length (store ?c1)) \<le> int (length (store c))" by simp
    with Cons.prems(4) Get m1
    have r1: "int (length (store ?c1)) + int (length (filter is_set xs)) \<le> max_items ?c1" by simp
    from Cons.IH[OF n1 g1 wf1 r1 e1] show ?thesis by simp
  next
    case (Set t k' v' ttl)
    with Cons.prems(1) have kk: "k \<noteq> k'" by auto
    from Set Cons.prems(2) have g1: "\<forall>t \<in> set (get_instants xs). \<not> is_expired ops t e" by simp
    from Set Cons.prems(4) have room: "int (length (store c)) + 1 \<le> max_items c" by simp
    from apply_set_room[OF Cons.prems(3) room kk, of ops t v' ttl] Set Cons.prems(5)
    have e1: "map_of (store ?c1) k = Some e"
      and l1: "length (store ?c1) \<le> Suc (length (store c))" by simp_all
    from l1 have "int (length (store ?c1)) \<le> int (length (store c)) + 1" by simp
    with Cons.prems(4) Set m1
    have r1: "int (length (store ?c1)) + int (length (filter is_set xs)) \<le> max_items ?c1" by simp
    from Cons.IH[OF n1 g1 wf1 r1 e1] show ?thesis by simp
  qed
qed

text \<open>
  The store lists its keys in the order of their last touch.
\<close>

lemma last_touch_snoc:
  "last_touch (ts @ [t]) k = (if t = Some k then Some (length ts) else last_touch ts k)"
  by (induction ts) (auto split: option.splits)

lemma last_touch_less: "last_touch ts k = Some i \<Longrightarrow> i < length ts"
  by (induction ts arbitrary: i) (auto split: option.splits if_splits)

lemma touched_before_snoc_None: "touched_before (ts @ [None]) a b = touched_before ts a b"
  by (simp add: touched_before_def last_touch_snoc)

lemma touched_before_snoc_other:
  "a \<noteq> k \<Longrightarrow> b \<noteq> k \<Longrightarrow> touched_before (ts @ [Some k]) a b = touched_before ts a b"
  by (simp add: touched_before_def last_touch_snoc)

lemma touched_before_snoc_new:
  assumes "last_touch ts a \<noteq> None" "a \<noteq> k"
  shows "touched_before (ts @ [Some k]) a k"
proof -
  from assms(1) obtain i where i: "last_touch ts a = Some i" by blast
  then have "i < length ts" by (rule last_touch_less)
  with i assms(2) show ?thesis by (simp add: touched_before_def last_touch_snoc)
qed

lemma recency_inv_None: "recency_inv ts d \<Longrightarrow> recency_inv (ts @ [None]) d"
  by (simp add: recency_inv_def touched_before_snoc_None last_touch_snoc)

lemma recency_inv_filter: "recency_inv ts d \<Longrightarrow> recency_inv ts (filter P d)"
  by (simp add: recency_inv_def wf_dict_filter sorted_wrt_filter)

lemma recency_inv_drop: "recency_inv ts d \<Longrightarrow> recency_inv ts (drop n d)"
  by (auto simp: recency_inv_def wf_dict_drop sorted_wrt_drop dest: in_set_dropD)

lemma recency_inv_touch:
  assumes "recency_inv ts d"
  shows "recency_inv (ts @ [Some k]) (discard k d @ [(k, e)])"
proof -
  from assms have wf: "wf_dict d"
    and so: "sorted_wrt (\<lambda>p q. touched_before ts (fst p) (fst q)) d"
    and lt: "\<forall>p \<in> set d. last_touch ts (fst p) \<noteq> None"
    by (simp_all add: recency_inv_def)
  let ?R = "\<lambda>ts p q. touched_before ts (fst p) (fst q)"
  have nk: "\<And>p. p \<in> set (discard k d) \<Longrightarrow> fst p \<noteq> k \<and> p \<in> set d"
    by (simp add: discard_def)
  from so have "sorted_wrt (?R ts) (discard k d)"
    unfolding discard_def by (rule sorted_wrt_filter)
  then have "sorted_wrt (?R (ts @ [Some k])) (discard k d)"
    by (rule sorted_wrt_mono_rel[rotated]) (simp add: touched_before_snoc_other nk)
  moreover have "\<forall>p \<in> set (discard k d). ?R (ts @ [Some k]) p (k, e)"
  proof
    fix p assume "p \<in> set (discard k d)"
    with nk have "fst p \<noteq> k" "p \<in> set d" by simp_all
    with lt have "last_touch ts (fst p) \<noteq> None" by simp
    from touched_before_snoc_new[OF this \<open>fst p \<noteq> k\<close>]
    show "?R (ts @ [Some k]) p (k, e)" by simp
  qed
  ultimately have "sorted_wrt (?R (ts @ [Some k])) (discard k d @ [(k, e)])"
    by (simp add: sorted_wrt_append)
  moreover have "\<forall>p \<in> set (discard k d @ [(k, e)]). last_touch (ts @ [Some k]) (fst p) \<noteq> None"
    using nk lt by (auto simp: last_touch_snoc)
  moreover have "wf_dict (discard k d @ [(k, e)])" using wf by (rule wf_dict_discard_snoc)
  ultimately show ?thesis by (simp add: recency_inv_def)
qed

lemma touched_get:
  assumes "wf_dict (store c)"
  shows "touched ops (Get t k) c =
           (case map_of (filter (\<lambda>p. \<not> is_expired ops t (snd p)) (store c)) k of
              None \<Rightarrow> None | Some e \<Rightarrow> Some k)"
  by (simp add: touched_def get_eq[OF assms] Let_def returned_def split: option.splits)

lemma apply_op_recency:
  assumes "wf_dict (store c)" "0 \<le> max_items c" "recency_inv ts (store c)"
  shows "recency_inv (ts @ [touched ops x c]) (store (snd (apply_op ops x c)))"
proof (cases x)
  case (Get t k)
  let ?d = "filter (\<lambda>p. \<not> is_expired ops t (snd p)) (store c)"
  from assms(3) have rd: "recency_inv ts ?d" by (rule recency_inv_filter)
  show ?thesis
  proof (cases "map_of ?d k")
    case None
    with recency_inv_None[OF rd] Get show ?thesis
      by (simp add: touched_get[OF assms(1)] get_eq[OF assms(1)] Let_def)
  next
    case (Some e)
    with recency_inv_touch[OF rd, of k e] Get show ?thesis
      by (simp add: touched_get[OF assms(1)] get_eq[OF assms(1)] Let_def)
  qed
next
  case (Set t k v ttl)
  show ?thesis
  proof (cases "expiry ops t ttl")
    case (Inl e)
    with recency_inv_None[OF assms(3)] Set show ?thesis
      by (simp add: touched_def set_item_raises)
  next
    case (Inr xp)
    define d where "d = discard k (store c) @ [(k, \<lparr>val = v, expires_at = xp\<rparr>)]"
    have "recency_inv (ts @ [Some k]) d" unfolding d_def using assms(3) by (rule recency_inv_touch)
    then have "recency_inv (ts @ [Some k]) (drop (length d - nat (max_items c)) d)"
      by (rule recency_inv_drop)
    with Set show ?thesis
      by (simp add: touched_def set_item_eq[OF assms(1,2) Inr] Let_def d_def)
  qed
qed

lemma run_ops_recency:
  assumes "0 \<le> m"
  shows "recency_inv (touches ops xs (MemoryTTLCache_init m))
           (store (run_ops ops xs (MemoryTTLCache_init m :: ('v, 'f) MemoryTTLCache)))"
proof (induction xs rule: rev_induct)
  case Nil
  show ?case by (simp add: recency_inv_def MemoryTTLCache_init_def wf_dict_def keys_def)
next
  case (snoc x xs)
  let ?ini = "MemoryTTLCache_init m :: ('v, 'f) MemoryTTLCache"
  let ?c = "run_ops ops xs ?ini"
  have "cache_inv ?ini"
    using assms by (simp add: cache_inv_def MemoryTTLCache_init_def wf_dict_def keys_def)
  note ri = run_ops_inv[OF this, of ops xs]
  have m0: "0 \<le> max_items ?ini" using assms by (simp add: MemoryTTLCache_init_def)
  from ri[OF m0] have wf: "wf_dict (store ?c)" by (simp add: cache_inv_def)
  from ri[OF m0] m0 have m: "0 \<le> max_items ?c" by simp
  from apply_op_recency[OF wf m snoc.IH, of ops x]
  show ?case by (simp add: run_ops_append touches_append)
qed

lemmas cache_defs = MemoryTTLCache_init_def get_def set_item_def purge_expired_def contains_def
  keys_def pop_def discard_def expiry_def is_expired_def returned_def wf_dict_def Let_def
  sample_floats_def sample_of_int_def overflow_def

lemma scenario_max2:
  assumes "a \<noteq> b" "a \<noteq> d" "b \<noteq> d"
  shows "\<exists>s1 s2 s3.
           get ops ua a (run_ops ops [Set ta a x None, Set tb b y None, Set tc d z None]
                           (MemoryTTLCache_init 2)) = Inr (None, s1) \<and>
           get ops ub b s1 = Inr (Some y, s2) \<and> get ops uc d s2 = Inr (Some z, s3)"
  using assms
  by (simp add: MemoryTTLCache_init_def get_def set_item_def purge_expired_def contains_def
      keys_def pop_def discard_def expiry_def is_expired_def Let_def)

subsection \<open>C3: what \<open>get\<close> returns\<close>

text \<open>
  Claim C3. For every key and every state of the in-process cache (a dictionary, so its
  keys are distinct), \<open>get\<close> does not raise: it returns the stored value when the key
  has an entry that has not expired at the instant of the call, and \<open>None\<close> when the
  key is missing or its entry has expired.
\<close>

theorem get_present_unexpired:
  assumes "wf_dict (store c)"
  shows "\<exists>c'. get ops now k c =
           Inr (case map_of (store c) k of
                  None \<Rightarrow> None
                | Some e \<Rightarrow> if is_expired ops now e then None else Some (val e), c')"
  using assms by (rule get_lookup)

text \<open>
  The theorem at a cache holding an entry that expires at instant 5 and one that never
  expires.
\<close>

theorem get_present_unexpired_witness:
  "wf_dict (store \<lparr>store = [(''a'', \<lparr>val = 1::nat, expires_at = Some (5::real)\<rparr>), (''b'', \<lparr>val = 2, expires_at = None\<rparr>)], max_items = 2\<rparr>) \<and>
   returned (get sample_floats 5 ''a'' \<lparr>store = [(''a'', \<lparr>val = 1::nat, expires_at = Some 5\<rparr>), (''b'', \<lparr>val = 2, expires_at = None\<rparr>)], max_items = 2\<rparr>) = Some None \<and>
   returned (get sample_floats 4 ''a'' \<lparr>store = [(''a'', \<lparr>val = 1::nat, expires_at = Some 5\<rparr>), (''b'', \<lparr>val = 2, expires_at = None\<rparr>)], max_items = 2\<rparr>) = Some (Some 1) \<and>
   returned (get sample_floats 9 ''c'' \<lparr>store = [(''a'', \<lparr>val = 1::nat, expires_at = Some 5\<rparr>), (''b'', \<lparr>val = 2, expires_at = None\<rparr>)], max_items = 2\<rparr>) = Some None"
proof -
  let ?c = "\<lparr>store = [(''a'', \<lparr>val = 1::nat, expires_at = Some (5::real)\<rparr>), (''b'', \<lparr>val = 2, expires_at = None\<rparr>)], max_items = 2\<rparr>"
  have wf: "wf_dict (store ?c)" by (simp add: wf_dict_def keys_def)
  from get_present_unexpired[OF wf, of sample_floats 5 "''a''"]
    get_present_unexpired[OF wf, of sample_floats 4 "''a''"]
    get_present_unexpired[OF wf, of sample_floats 9 "''c''"] wf
  show ?thesis by (auto simp: returned_def is_expired_def sample_floats_def)
qed

subsection \<open>C2: the expiry set by \<open>set\<close>\<close>

text \<open>
  Claim C2, as the code has it. Let \<open>set(k, v, t)\<close> be called at instant \<open>now\<close> on a
  cache whose maximum size is not negative.
  \<^item> When \<open>t\<close> is not zero and too large to convert to a float, the call raises
    \<open>OverflowError\<close> and leaves the cache as it was.
  \<^item> Otherwise the call returns, and the entry has no expiry when \<open>t\<close> is absent or 0,
    and the expiry \<open>now + t\<close>, added as floats, for every other \<open>t\<close>, negative ones
    included. After any calls that do not set \<open>k\<close> again, \<open>get(k)\<close> returns \<open>v\<close> or
    nothing, never another value; it returns nothing from the expiry on; and it returns
    \<open>v\<close> when the expiry has been reached neither at that \<open>get\<close> nor at an earlier one
    and the maximum size has room for every key set since.
\<close>

theorem set_then_get_expiry:
  assumes "wf_dict (store c)" and "0 \<le> max_items c"
  shows "(\<forall>t. ttl = Some t \<and> t \<noteq> 0 \<and> float_of_int ops t = None \<longrightarrow>
            set_item ops now k v ttl c = (Some overflow, c)) \<and>
         (\<forall>xp. ((ttl = None \<or> ttl = Some 0) \<and> xp = None \<or>
                (\<exists>t y. ttl = Some t \<and> t \<noteq> 0 \<and> float_of_int ops t = Some y \<and>
                       xp = Some (float_add ops now y))) \<longrightarrow>
            (\<exists>c'. set_item ops now k v ttl c = (None, c') \<and>
               (\<forall>xs now'. (\<forall>x \<in> set xs. \<not> sets_key k x) \<longrightarrow>
                  (returned (get ops now' k (run_ops ops xs c')) = Some None \<or>
                   returned (get ops now' k (run_ops ops xs c')) = Some (Some v)) \<and>
                  ((\<exists>x. xp = Some x \<and> float_le ops x now') \<longrightarrow>
                     returned (get ops now' k (run_ops ops xs c')) = Some None) \<and>
                  ((\<forall>x. xp = Some x \<longrightarrow>
                        \<not> float_le ops x now' \<and> (\<forall>t \<in> set (get_instants xs). \<not> float_le ops x t)) \<and>
                   1 \<le> max_items c \<and>
                   int (length (store c')) + int (length (filter is_set xs)) \<le> max_items c \<longrightarrow>
                     returned (get ops now' k (run_ops ops xs c')) = Some (Some v)))))"
proof (intro conjI allI impI)
  fix t assume "ttl = Some t \<and> t \<noteq> 0 \<and> float_of_int ops t = None"
  then have "expiry ops now ttl = Inl overflow" by (simp add: expiry_def)
  then show "set_item ops now k v ttl c = (Some overflow, c)" by (rule set_item_raises)
next
  fix xp assume h: "(ttl = None \<or> ttl = Some 0) \<and> xp = None \<or>
                (\<exists>t y. ttl = Some t \<and> t \<noteq> 0 \<and> float_of_int ops t = Some y \<and>
                       xp = Some (float_add ops now y))"
  define e where "e = \<lparr>val = v, expires_at = xp\<rparr>"
  from h have ex: "expiry ops now ttl = Inr xp" by (auto simp: expiry_def)
  from set_item_stores[OF assms ex, of k v] obtain c' where
    s: "set_item ops now k v ttl c = (None, c')" and wf: "wf_dict (store c')" and
    m: "max_items c' = max_items c" and
    e0: "map_of (store c') k = None \<or> map_of (store c') k = Some e" and
    e1: "1 \<le> max_items c \<longrightarrow> map_of (store c') k = Some e"
    unfolding e_def by blast
  have exd: "is_expired ops t e \<longleftrightarrow> (\<exists>x. xp = Some x \<and> float_le ops x t)" for t
    by (auto simp: is_expired_def e_def split: option.splits)
  have main: "(returned (get ops now' k (run_ops ops xs c')) = Some None \<or>
          returned (get ops now' k (run_ops ops xs c')) = Some (Some v)) \<and>
         ((\<exists>x. xp = Some x \<and> float_le ops x now') \<longrightarrow>
            returned (get ops now' k (run_ops ops xs c')) = Some None) \<and>
         ((\<forall>x. xp = Some x \<longrightarrow>
               \<not> float_le ops x now' \<and> (\<forall>t \<in> set (get_instants xs). \<not> float_le ops x t)) \<and>
          1 \<le> max_items c \<and>
          int (length (store c')) + int (length (filter is_set xs)) \<le> max_items c \<longrightarrow>
            returned (get ops now' k (run_ops ops xs c')) = Some (Some v))"
    if ns: "\<forall>x \<in> set xs. \<not> sets_key k x" for xs now'
  proof -
    let ?c = "run_ops ops xs c'"
    from assms(2) m have m0: "0 \<le> max_items c'" by simp
    from run_ops_entry[OF ns wf m0 e0, of ops]
    have wfr: "wf_dict (store ?c)" and
      er: "map_of (store ?c) k = None \<or> map_of (store ?c) k = Some e" by simp_all
    note rg = returned_get[OF wfr, of ops now' k]
    from er rg have a: "returned (get ops now' k ?c) = Some None \<or>
          returned (get ops now' k ?c) = Some (Some v)"
      by (auto simp: e_def split: if_splits)
    from er rg have b: "returned (get ops now' k ?c) = Some None"
      if "\<exists>x. xp = Some x \<and> float_le ops x now'"
      using that exd[of now'] by auto
    have c: "returned (get ops now' k ?c) = Some (Some v)"
      if u: "\<forall>x. xp = Some x \<longrightarrow>
               \<not> float_le ops x now' \<and> (\<forall>t \<in> set (get_instants xs). \<not> float_le ops x t)"
        and one: "1 \<le> max_items c"
        and room: "int (length (store c')) + int (length (filter is_set xs)) \<le> max_items c"
    proof -
      from e1 one have st: "map_of (store c') k = Some e" by simp
      from u have gi: "\<forall>t \<in> set (get_instants xs). \<not> is_expired ops t e"
        unfolding exd by blast
      from room m have room': "int (length (store c')) + int (length (filter is_set xs)) \<le> max_items c'"
        by simp
      from run_ops_stays[OF ns gi wf room' st]
      have "map_of (store ?c) k = Some e" .
      moreover from u have "\<not> is_expired ops now' e" unfolding exd by blast
      ultimately show ?thesis using rg by (simp add: e_def)
    qed
    from a b c show ?thesis by blast
  qed
  from s main show "\<exists>c'. set_item ops now k v ttl c = (None, c') \<and>
               (\<forall>xs now'. (\<forall>x \<in> set xs. \<not> sets_key k x) \<longrightarrow>
                  (returned (get ops now' k (run_ops ops xs c')) = Some None \<or>
                   returned (get ops now' k (run_ops ops xs c')) = Some (Some v)) \<and>
                  ((\<exists>x. xp = Some x \<and> float_le ops x now') \<longrightarrow>
                     returned (get ops now' k (run_ops ops xs c')) = Some None) \<and>
                  ((\<forall>x. xp = Some x \<longrightarrow>
                        \<not> float_le ops x now' \<and> (\<forall>t \<in> set (get_instants xs). \<not> float_le ops x t)) \<and>
                   1 \<le> max_items c \<and>
                   int (length (store c')) + int (length (filter is_set xs)) \<le> max_items c \<longrightarrow>
                     returned (get ops now' k (run_ops ops xs c')) = Some (Some v)))"
    by blast
qed

text \<open>
  The theorem at \<open>set(x, 7, 5)\<close> at instant 10, followed by a \<open>get\<close> and a \<open>set\<close> of
  another key: present at 14, absent at 15; and at a \<open>ttl\<close> of \<open>2 ** 1024\<close>, where the
  call raises.
\<close>

theorem set_then_get_expiry_witness:
  "wf_dict (store (MemoryTTLCache_init 2 :: (nat, real) MemoryTTLCache)) \<and>
   0 \<le> max_items (MemoryTTLCache_init 2 :: (nat, real) MemoryTTLCache) \<and>
   set_item sample_floats 10 ''x'' (7::nat) (Some 5) (MemoryTTLCache_init 2) =
     (None, \<lparr>store = [(''x'', \<lparr>val = 7, expires_at = Some 15\<rparr>)], max_items = 2\<rparr>) \<and>
   returned (get sample_floats 14 ''x''
      (run_ops sample_floats [Get 12 ''x'', Set 13 ''y'' 8 None]
         \<lparr>store = [(''x'', \<lparr>val = 7::nat, expires_at = Some 15\<rparr>)], max_items = 2\<rparr>)) = Some (Some 7) \<and>
   returned (get sample_floats 15 ''x''
      (run_ops sample_floats [Get 12 ''x'', Set 13 ''y'' 8 None]
         \<lparr>store = [(''x'', \<lparr>val = 7::nat, expires_at = Some 15\<rparr>)], max_items = 2\<rparr>)) = Some None \<and>
   set_item sample_floats 10 ''x'' (7::nat) (Some (2 ^ 1024)) (MemoryTTLCache_init 2) =
     (Some (Exc OverflowError ''int too large to convert to float''), MemoryTTLCache_init 2)"
proof -
  let ?c0 = "MemoryTTLCache_init 2 :: (nat, real) MemoryTTLCache"
  let ?c1 = "\<lparr>store = [(''x'', \<lparr>val = 7::nat, expires_at = Some (15::real)\<rparr>)], max_items = 2\<rparr>"
  let ?xs = "[Get 12 ''x'', Set 13 ''y'' (8::nat) None] :: (nat, real) cache_op list"
  have wf: "wf_dict (store ?c0)" by (simp add: MemoryTTLCache_init_def wf_dict_def keys_def)
  have m: "0 \<le> max_items ?c0" by (simp add: MemoryTTLCache_init_def)
  have s: "set_item sample_floats 10 ''x'' (7::nat) (Some 5) ?c0 = (None, ?c1)"
    by (simp add: cache_defs)
  have ttl: "(Some (5::int) = None \<or> Some (5::int) = Some 0) \<and> Some (15::real) = None \<or>
        (\<exists>t y. Some (5::int) = Some t \<and> t \<noteq> 0 \<and> float_of_int sample_floats t = Some y \<and>
               Some (15::real) = Some (float_add sample_floats 10 y))"
    by (simp add: sample_floats_def sample_of_int_def)
  note inst = set_then_get_expiry[OF wf m, of "Some 5" sample_floats 10 "''x''" 7]
  from inst[THEN conjunct2, rule_format, of "Some 15", OF ttl] obtain c' where
    s': "set_item sample_floats 10 ''x'' (7::nat) (Some 5) ?c0 = (None, c')" and
    after': "\<forall>xs now'. (\<forall>x \<in> set xs. \<not> sets_key ''x'' x) \<longrightarrow>
      (returned (get sample_floats now' ''x'' (run_ops sample_floats xs c')) = Some None \<or>
       returned (get sample_floats now' ''x'' (run_ops sample_floats xs c')) = Some (Some 7)) \<and>
      ((\<exists>x. Some (15::real) = Some x \<and> float_le sample_floats x now') \<longrightarrow>
         returned (get sample_floats now' ''x'' (run_ops sample_floats xs c')) = Some None) \<and>
      ((\<forall>x. Some (15::real) = Some x \<longrightarrow>
            \<not> float_le sample_floats x now' \<and>
            (\<forall>t \<in> set (get_instants xs). \<not> float_le sample_floats x t)) \<and>
       1 \<le> max_items ?c0 \<and>
       int (length (store c')) + int (length (filter is_set xs)) \<le> max_items ?c0 \<longrightarrow>
         returned (get sample_floats now' ''x'' (run_ops sample_floats xs c')) = Some (Some 7))"
    by blast
  from s s' have c': "c' = ?c1" by simp
  have ns: "\<forall>x \<in> set ?xs. \<not> sets_key ''x'' x" by simp
  have u14: "(\<forall>x. Some (15::real) = Some x \<longrightarrow>
            \<not> float_le sample_floats x 14 \<and>
            (\<forall>t \<in> set (get_instants ?xs). \<not> float_le sample_floats x t)) \<and>
       1 \<le> max_items ?c0 \<and>
       int (length (store ?c1)) + int (length (filter is_set ?xs)) \<le> max_items ?c0"
    by (simp add: sample_floats_def MemoryTTLCache_init_def)
  from after'[unfolded c', THEN spec, of ?xs, THEN spec, of 14, THEN mp, OF ns, THEN conjunct2, THEN conjunct2, THEN mp, OF u14] have g14:
    "returned (get sample_floats 14 ''x'' (run_ops sample_floats ?xs ?c1)) = Some (Some 7)" .
  have x15: "\<exists>x. Some (15::real) = Some x \<and> float_le sample_floats x 15"
    by (simp add: sample_floats_def)
  from after'[unfolded c', THEN spec, of ?xs, THEN spec, of 15, THEN mp, OF ns, THEN conjunct2, THEN conjunct1, THEN mp, OF x15] have g15:
    "returned (get sample_floats 15 ''x'' (run_ops sample_floats ?xs ?c1)) = Some None" .
  have big: "Some ((2::int) ^ 1024) = Some (2 ^ 1024) \<and> (2::int) ^ 1024 \<noteq> 0 \<and>
             float_of_int sample_floats (2 ^ 1024) = None"
    by (simp add: sample_floats_def sample_of_int_def)
  from set_then_get_expiry[OF wf m, of "Some (2 ^ 1024)" sample_floats 10 "''x''" 7] big
  have ov: "set_item sample_floats 10 ''x'' (7::nat) (Some (2 ^ 1024)) ?c0 = (Some overflow, ?c0)"
    by blast
  from wf m s g14 g15 ov show ?thesis by (simp add: overflow_def)
qed

text \<open>
  With \<open>t = -1\<close>, which is not greater than 0, the entry does not stay: it is stored
  with the expiry 9 and \<open>get\<close> at the instant of the \<open>set\<close> returns \<open>None\<close>. With
  \<open>t = 2 ** 1024\<close>, which is greater than 0, no entry is stored: the call raises.
\<close>

theorem negative_ttl_counterexample:
  "set_item sample_floats 10 ''x'' (7::nat) (Some (- 1)) (MemoryTTLCache_init 2) =
     (None, \<lparr>store = [(''x'', \<lparr>val = 7, expires_at = Some 9\<rparr>)], max_items = 2\<rparr>) \<and>
   returned (get sample_floats 10 ''x''
      \<lparr>store = [(''x'', \<lparr>val = 7::nat, expires_at = Some 9\<rparr>)], max_items = 2\<rparr>) = Some None \<and>
   set_item sample_floats 10 ''x'' (7::nat) (Some (2 ^ 1024)) (MemoryTTLCache_init 2) =
     (Some (Exc OverflowError ''int too large to convert to float''), MemoryTTLCache_init 2)"
  by (simp add: cache_defs)

subsection \<open>C4: the bound on the size\<close>

text \<open>
  Claim C4. Starting from a new cache with maximum size \<open>m\<close>, after every prefix of
  every sequence of \<open>get\<close> and \<open>set\<close> calls the store holds at most \<open>m\<close> entries. The
  only exception a call raises on the way is the \<open>OverflowError\<close> of a \<open>ttl\<close> too large
  to convert, which leaves the store untouched.
\<close>

theorem size_never_exceeds_max:
  assumes "0 \<le> m"
  shows "max_items (run_ops ops (take n xs) (MemoryTTLCache_init m)) = m \<and>
         int (length (store (run_ops ops (take n xs) (MemoryTTLCache_init m)))) \<le> m \<and>
         set (raised ops (take n xs) (MemoryTTLCache_init m)) \<subseteq> {overflow}"
proof -
  have "cache_inv (MemoryTTLCache_init m :: ('a, 'b) MemoryTTLCache)"
    using assms by (simp add: cache_inv_def MemoryTTLCache_init_def wf_dict_def keys_def)
  from run_ops_inv[OF this, of ops "take n xs"] assms show ?thesis
    by (auto simp: cache_inv_def MemoryTTLCache_init_def)
qed

text \<open>
  The theorem at maximum size 1, after the second of three calls: the store holds \<open>b\<close>
  alone.
\<close>

theorem size_never_exceeds_max_witness:
  "(0::int) \<le> 1 \<and>
   run_ops sample_floats (take 2 [Set 0 ''a'' (1::nat) None, Set 1 ''b'' 2 (Some 5), Get 2 ''a''])
     (MemoryTTLCache_init 1) =
     \<lparr>store = [(''b'', \<lparr>val = 2, expires_at = Some 6\<rparr>)], max_items = 1\<rparr> \<and>
   raised sample_floats (take 2 [Set 0 ''a'' (1::nat) None, Set 1 ''b'' 2 (Some 5), Get 2 ''a''])
     (MemoryTTLCache_init 1) = [] \<and>
   int (length [(''b'', \<lparr>val = 2::nat, expires_at = Some (6::real)\<rparr>)]) \<le> 1"
proof -
  have h: "(0::int) \<le> 1" by simp
  have r: "run_ops sample_floats (take 2 [Set 0 ''a'' (1::nat) None, Set 1 ''b'' 2 (Some 5), Get 2 ''a''])
     (MemoryTTLCache_init 1) =
     \<lparr>store = [(''b'', \<lparr>val = 2, expires_at = Some 6\<rparr>)], max_items = 1\<rparr>"
    by (simp add: cache_defs numeral_2_eq_2)
  have e: "raised sample_floats (take 2 [Set 0 ''a'' (1::nat) None, Set 1 ''b'' 2 (Some 5), Get 2 ''a''])
     (MemoryTTLCache_init 1) = []"
    by (simp add: cache_defs numeral_2_eq_2)
  from size_never_exceeds_max[OF h, of sample_floats 2 "[Set 0 ''a'' (1::nat) None, Set 1 ''b'' 2 (Some 5), Get 2 ''a'']"] r e
  show ?thesis by simp
qed

subsection \<open>C5: which entry is evicted\<close>

text \<open>
  Claim C5, as the code has it. Take a cache of maximum size \<open>m\<close> after any sequence
  of calls, holding \<open>m\<close> entries that have not expired, and set a key that is not stored,
  with a \<open>ttl\<close> that converts. The call evicts exactly one key, the head of the store
  with the new entry appended, and the last touch of that key is earlier than the last
  touch of every key that stays: it is the key touched least recently, where a touch is a
  \<open>set\<close> that returns or a \<open>get\<close> that hits. When \<open>m\<close> is at least 2, a \<open>get(k)\<close> that
  hits moves \<open>k\<close> to the tail, so an overflow that follows it directly evicts another
  key and \<open>k\<close> stays. With maximum size 2, setting three distinct keys leaves the first absent and the
  other two present.
\<close>

theorem lru_eviction:
  assumes "c = run_ops ops xs (MemoryTTLCache_init m)"
    and "ts = touches ops xs (MemoryTTLCache_init m)"
    and "int (length (store c)) = m"
    and "\<forall>p \<in> set (store c). \<not> is_expired ops now' (snd p)"
    and "\<not> contains k' (store c)"
    and "(ttl = None \<or> ttl = Some 0) \<and> xp = None \<or>
         (\<exists>t y. ttl = Some t \<and> t \<noteq> 0 \<and> float_of_int ops t = Some y \<and>
                xp = Some (float_add ops now' y))"
    and "full = store c @ [(k', \<lparr>val = v', expires_at = xp\<rparr>)]"
  shows "set_item ops now' k' v' ttl c = (None, c\<lparr>store := tl full\<rparr>) \<and>
         \<not> contains (fst (hd full)) (tl full) \<and>
         (\<forall>b \<in> set (keys (tl full)). touched_before (ts @ [Some k']) (fst (hd full)) b) \<and>
         (2 \<le> m \<and> (\<forall>p \<in> set (store c). \<not> is_expired ops now (snd p)) \<and> map_of (store c) k = Some e \<longrightarrow>
            (\<exists>c1 c2. get ops now k c = Inr (Some (val e), c1) \<and>
               set_item ops now' k' v' ttl c1 = (None, c2) \<and>
               store c2 = tl (store c1) @ [(k', \<lparr>val = v', expires_at = xp\<rparr>)] \<and>
               fst (hd (store c1)) \<noteq> k \<and>
               map_of (store c2) k = Some e)) \<and>
         (a \<noteq> b \<and> a \<noteq> d \<and> b \<noteq> d \<longrightarrow>
            (\<exists>s1 s2 s3.
               get ops ua a (run_ops ops [Set ta a x None, Set tb b y None, Set tc d z None]
                               (MemoryTTLCache_init 2)) = Inr (None, s1) \<and>
               get ops ub b s1 = Inr (Some y, s2) \<and> get ops uc d s2 = Inr (Some z, s3)))"
proof (intro conjI impI)
  let ?ini = "MemoryTTLCache_init m :: ('a, 'b) MemoryTTLCache"
  define e' where "e' = \<lparr>val = v', expires_at = xp\<rparr>"
  from assms(3) have m0: "0 \<le> m" by linarith
  have "cache_inv ?ini"
    using m0 by (simp add: cache_inv_def MemoryTTLCache_init_def wf_dict_def keys_def)
  moreover have "0 \<le> max_items ?ini" using m0 by (simp add: MemoryTTLCache_init_def)
  ultimately have "cache_inv c \<and> max_items c = max_items ?ini"
    unfolding assms(1) using run_ops_inv[of ?ini ops xs] by simp
  then have wf: "wf_dict (store c)" and mc: "max_items c = m"
    by (simp_all add: cache_inv_def MemoryTTLCache_init_def)
  from assms(3) mc have len: "int (length (store c)) = max_items c" by simp
  have ex: "expiry ops now' ttl = Inr xp" using assms(6) by (rule expiry_Inr)
  have rec: "recency_inv ts (store c)"
    unfolding assms(1,2) using m0 by (rule run_ops_recency)
  have full: "full = store c @ [(k', e')]" by (simp add: assms(7) e'_def)
  have wff: "wf_dict full"
    unfolding full using wf assms(5) by (rule wf_dict_snoc)
  have recf: "recency_inv (ts @ [Some k']) full"
    using recency_inv_touch[OF rec, of k' e'] by (simp add: full discard_absent[OF assms(5)])
  have ne: "full \<noteq> []" by (simp add: full)
  then have hdtl: "full = hd full # tl full" by simp
  show "set_item ops now' k' v' ttl c = (None, c\<lparr>store := tl full\<rparr>)"
    using set_item_full[OF wf len assms(5) ex, of v'] by (simp add: assms(7))
  show "\<not> contains (fst (hd full)) (tl full)"
  proof -
    from wff have "distinct (map fst (hd full # tl full))"
      unfolding wf_dict_def keys_def using hdtl by simp
    then show ?thesis by (simp add: contains_def keys_def)
  qed
  show "\<forall>b \<in> set (keys (tl full)). touched_before (ts @ [Some k']) (fst (hd full)) b"
  proof -
    from recf have "sorted_wrt (\<lambda>p q. touched_before (ts @ [Some k']) (fst p) (fst q)) (hd full # tl full)"
      unfolding recency_inv_def using hdtl by simp
    then show ?thesis by (auto simp: keys_def)
  qed
  show "\<exists>s1 s2 s3.
        get ops ua a (run_ops ops [Set ta a x None, Set tb b y None, Set tc d z None]
                        (MemoryTTLCache_init 2)) = Inr (None, s1) \<and>
        get ops ub b s1 = Inr (Some y, s2) \<and> get ops uc d s2 = Inr (Some z, s3)"
    if "a \<noteq> b \<and> a \<noteq> d \<and> b \<noteq> d"
  proof -
    from that have "a \<noteq> b" "a \<noteq> d" "b \<noteq> d" by simp_all
    then show ?thesis by (rule scenario_max2)
  qed
  show "\<exists>c1 c2. get ops now k c = Inr (Some (val e), c1) \<and>
               set_item ops now' k' v' ttl c1 = (None, c2) \<and>
               store c2 = tl (store c1) @ [(k', \<lparr>val = v', expires_at = xp\<rparr>)] \<and>
               fst (hd (store c1)) \<noteq> k \<and>
               map_of (store c2) k = Some e"
    if h: "2 \<le> m \<and> (\<forall>p \<in> set (store c). \<not> is_expired ops now (snd p)) \<and> map_of (store c) k = Some e"
  proof -
    define dd where "dd = discard k (store c)"
    define c1 where "c1 = c\<lparr>store := dd @ [(k, e)]\<rparr>"
    from h have ck: "contains k (store c)" by (simp add: contains_map_of)
    with assms(5) have kk': "k \<noteq> k'" by auto
    have g: "get ops now k c = Inr (Some (val e), c1)"
      unfolding c1_def dd_def using wf h by (intro get_unexpired_hit) simp_all
    have len1: "Suc (length dd) = length (store c)"
      unfolding dd_def using wf ck by (rule length_discard_present)
    with h assms(3) have dne: "dd \<noteq> []" by auto
    have wf1: "wf_dict (store c1)"
      unfolding c1_def dd_def using wf by (simp add: wf_dict_discard_snoc)
    have l1: "int (length (store c1)) = max_items c1"
      unfolding c1_def using len1 len by simp
    have nk1: "\<not> contains k' (store c1)"
      using assms(5) kk' unfolding c1_def dd_def
      by (auto simp: contains_def keys_def discard_def)
    from set_item_full[OF wf1 l1 nk1 ex, of v']
    have s: "set_item ops now' k' v' ttl c1 = (None, c1\<lparr>store := tl (store c1 @ [(k', e')])\<rparr>)"
      unfolding e'_def .
    have tl_eq: "tl (store c1 @ [(k', e')]) = tl (store c1) @ [(k', e')]"
      unfolding c1_def using dne by simp
    have st1: "store c1 = discard k (store c) @ [(k, e)]" by (simp add: c1_def dd_def)
    from dne have "discard k (store c) \<noteq> []" by (simp add: dd_def)
    from hd_discard_key[OF this, of "[(k, e)]"] have hd_ne: "fst (hd (store c1)) \<noteq> k"
      unfolding st1 .
    have "map_of (tl dd @ [(k, e)] @ [(k', e')]) k = Some e"
    proof -
      have "set (tl dd) \<subseteq> set dd" by (cases dd) auto
      moreover have "\<not> contains k dd" unfolding dd_def by (simp add: contains_discard)
      ultimately have "\<not> contains k (tl dd)"
        unfolding contains_def keys_def by auto
      then show ?thesis using kk'
        by (simp add: contains_map_of map_add_def)
    qed
    then have look: "map_of (tl (store c1) @ [(k', e')]) k = Some e"
      unfolding c1_def using dne by simp
    show ?thesis
      using g s tl_eq hd_ne look unfolding e'_def
      by (intro exI[of _ c1] exI[of _ "c1\<lparr>store := tl (store c1 @ [(k', \<lparr>val = v', expires_at = xp\<rparr>)])\<rparr>"]) simp
  qed
qed

text \<open>
  The theorem at a cache of size 2 after \<open>set(a)\<close>, \<open>set(b)\<close>, \<open>set(a)\<close>: the second
  \<open>set(a)\<close> has refreshed \<open>a\<close>, so the insertion of \<open>c\<close> evicts \<open>b\<close>; and after
  \<open>get(b)\<close> it evicts \<open>a\<close> instead.
\<close>

theorem lru_eviction_witness:
  "run_ops sample_floats [Set 1 ''a'' (1::nat) None, Set 2 ''b'' 2 None, Set 3 ''a'' 5 None]
     (MemoryTTLCache_init 2) =
     \<lparr>store = [(''b'', \<lparr>val = 2, expires_at = None\<rparr>), (''a'', \<lparr>val = 5, expires_at = None\<rparr>)],
      max_items = 2\<rparr> \<and>
   touches sample_floats [Set 1 ''a'' (1::nat) None, Set 2 ''b'' 2 None, Set 3 ''a'' 5 None]
     (MemoryTTLCache_init 2) = [Some ''a'', Some ''b'', Some ''a''] \<and>
   \<not> contains ''c'' [(''b'', \<lparr>val = 2::nat, expires_at = None :: real option\<rparr>),
                      (''a'', \<lparr>val = 5, expires_at = None\<rparr>)] \<and>
   set_item sample_floats 6 ''c'' 3 None
     \<lparr>store = [(''b'', \<lparr>val = 2::nat, expires_at = None\<rparr>), (''a'', \<lparr>val = 5, expires_at = None\<rparr>)],
      max_items = 2\<rparr> =
     (None, \<lparr>store = [(''a'', \<lparr>val = 5, expires_at = None\<rparr>), (''c'', \<lparr>val = 3, expires_at = None\<rparr>)],
             max_items = 2\<rparr>) \<and>
   touched_before [Some ''a'', Some ''b'', Some ''a'', Some ''c''] ''b'' ''a'' \<and>
   touched_before [Some ''a'', Some ''b'', Some ''a'', Some ''c''] ''b'' ''c'' \<and>
   (\<exists>c1 c2. get sample_floats 5 ''b''
        \<lparr>store = [(''b'', \<lparr>val = 2::nat, expires_at = None\<rparr>), (''a'', \<lparr>val = 5, expires_at = None\<rparr>)],
         max_items = 2\<rparr> = Inr (Some 2, c1) \<and>
      set_item sample_floats 6 ''c'' 3 None c1 = (None, c2) \<and>
      map_of (store c2) ''b'' = Some \<lparr>val = 2, expires_at = None\<rparr>) \<and>
   (\<exists>s1 s2 s3.
      get sample_floats 4 ''a''
        (run_ops sample_floats [Set 1 ''a'' (1::nat) None, Set 2 ''b'' 2 None, Set 3 ''c'' 3 None]
           (MemoryTTLCache_init 2)) = Inr (None, s1) \<and>
      get sample_floats 5 ''b'' s1 = Inr (Some 2, s2) \<and> get sample_floats 6 ''c'' s2 = Inr (Some 3, s3))"
proof -
  let ?xs = "[Set 1 ''a'' (1::nat) None, Set 2 ''b'' 2 None, Set 3 ''a'' 5 None] :: (nat, real) cache_op list"
  let ?c = "\<lparr>store = [(''b'', \<lparr>val = 2::nat, expires_at = None :: real option\<rparr>),
                      (''a'', \<lparr>val = 5, expires_at = None\<rparr>)], max_items = 2\<rparr>"
  let ?ts = "[Some ''a'', Some ''b'', Some ''a'']"
  let ?full = "[(''b'', \<lparr>val = 2::nat, expires_at = None :: real option\<rparr>),
                (''a'', \<lparr>val = 5, expires_at = None\<rparr>), (''c'', \<lparr>val = 3, expires_at = None\<rparr>)]"
  have h1: "?c = run_ops sample_floats ?xs (MemoryTTLCache_init 2)"
    by (simp add: cache_defs)
  have h2: "?ts = touches sample_floats ?xs (MemoryTTLCache_init 2)"
    by (simp add: touched_def cache_defs)
  have h3: "int (length (store ?c)) = 2" by simp
  have h4: "\<forall>p \<in> set (store ?c). \<not> is_expired sample_floats 6 (snd p)"
    by (simp add: is_expired_def)
  have h5: "\<not> contains ''c'' (store ?c)" by (simp add: contains_def keys_def)
  have h6: "(None = None \<or> (None :: int option) = Some 0) \<and> (None :: real option) = None \<or>
         (\<exists>t y. None = Some t \<and> t \<noteq> 0 \<and> float_of_int sample_floats t = Some y \<and>
                None = Some (float_add sample_floats 6 y))" by simp
  have h7: "?full = store ?c @ [(''c'', \<lparr>val = 3, expires_at = None\<rparr>)]" by simp
  have h8: "2 \<le> (2::int) \<and> (\<forall>p \<in> set (store ?c). \<not> is_expired sample_floats 5 (snd p)) \<and>
            map_of (store ?c) ''b'' = Some \<lparr>val = 2, expires_at = None\<rparr>"
    by (simp add: is_expired_def)
  have h9: "''a'' \<noteq> ''b'' \<and> ''a'' \<noteq> ''c'' \<and> ''b'' \<noteq> ''c''" by simp
  note inst = lru_eviction[OF h1 h2 h3 h4 h5 h6 h7, where now = 5 and k = "''b''"
      and e = "\<lparr>val = 2, expires_at = None\<rparr>"
      and a = "''a''" and b = "''b''" and d = "''c''" and x = 1 and y = 2 and z = 3
      and ta = 1 and tb = 2 and tc = 3 and ua = 4 and ub = 5 and uc = 6]
  from inst have p1: "set_item sample_floats 6 ''c'' 3 None ?c = (None, ?c\<lparr>store := tl ?full\<rparr>)"
    by (rule conjunct1)
  from inst have p2: "\<forall>b \<in> set (keys (tl ?full)).
      touched_before (?ts @ [Some ''c'']) (fst (hd ?full)) b"
    by (rule conjunct2[THEN conjunct2, THEN conjunct1])
  from inst h8 have p3: "\<exists>c1 c2. get sample_floats 5 ''b'' ?c =
        Inr (Some (val \<lparr>val = 2::nat, expires_at = None :: real option\<rparr>), c1) \<and>
      set_item sample_floats 6 ''c'' 3 None c1 = (None, c2) \<and>
      store c2 = tl (store c1) @ [(''c'', \<lparr>val = 3, expires_at = None\<rparr>)] \<and>
      fst (hd (store c1)) \<noteq> ''b'' \<and>
      map_of (store c2) ''b'' = Some \<lparr>val = 2, expires_at = None\<rparr>"
    by blast
  from inst h9 have p4: "\<exists>s1 s2 s3.
      get sample_floats 4 ''a''
        (run_ops sample_floats [Set 1 ''a'' (1::nat) None, Set 2 ''b'' 2 None, Set 3 ''c'' 3 None]
           (MemoryTTLCache_init 2)) = Inr (None, s1) \<and>
      get sample_floats 5 ''b'' s1 = Inr (Some 2, s2) \<and> get sample_floats 6 ''c'' s2 = Inr (Some 3, s3)"
    by blast
  from p2 have p2': "touched_before [Some ''a'', Some ''b'', Some ''a'', Some ''c''] ''b'' ''a'' \<and>
     touched_before [Some ''a'', Some ''b'', Some ''a'', Some ''c''] ''b'' ''c''"
    by (simp add: keys_def)
  from p3 have p3': "\<exists>c1 c2. get sample_floats 5 ''b'' ?c = Inr (Some 2, c1) \<and>
      set_item sample_floats 6 ''c'' 3 None c1 = (None, c2) \<and>
      map_of (store c2) ''b'' = Some \<lparr>val = 2, expires_at = None\<rparr>"
    by auto
  from h1[symmetric] h2[symmetric] h5 p1 p2' p3' p4 show ?thesis by simp
qed

text \<open>
  With maximum size 1 the claim as stated fails: \<open>get(k)\<close> hits, and the overflow that
  follows evicts \<open>k\<close>, the only entry. With maximum size 2, \<open>get(a)\<close> hits, \<open>get(b)\<close>
  hits after it, and the next overflow evicts \<open>a\<close>. And a \<open>set\<close> whose \<open>ttl\<close> does not
  convert evicts nothing.
\<close>

theorem lru_counterexample:
  "run_ops sample_floats [Set 0 ''k'' (1::nat) None] (MemoryTTLCache_init 1) =
     \<lparr>store = [(''k'', \<lparr>val = 1, expires_at = None\<rparr>)], max_items = 1\<rparr> \<and>
   get sample_floats 0 ''k'' \<lparr>store = [(''k'', \<lparr>val = 1::nat, expires_at = None\<rparr>)], max_items = 1\<rparr> =
     Inr (Some 1, \<lparr>store = [(''k'', \<lparr>val = 1, expires_at = None\<rparr>)], max_items = 1\<rparr>) \<and>
   set_item sample_floats 0 ''j'' 2 None
     \<lparr>store = [(''k'', \<lparr>val = 1::nat, expires_at = None\<rparr>)], max_items = 1\<rparr> =
     (None, \<lparr>store = [(''j'', \<lparr>val = 2, expires_at = None\<rparr>)], max_items = 1\<rparr>) \<and>
   run_ops sample_floats
     [Set 0 ''a'' (1::nat) None, Set 1 ''b'' 2 None, Get 2 ''a'', Get 3 ''b'', Set 4 ''c'' 3 None]
     (MemoryTTLCache_init 2) =
     \<lparr>store = [(''b'', \<lparr>val = 2, expires_at = None\<rparr>), (''c'', \<lparr>val = 3, expires_at = None\<rparr>)],
      max_items = 2\<rparr> \<and>
   touches sample_floats
     [Set 0 ''a'' (1::nat) None, Set 1 ''b'' 2 None, Get 2 ''a'', Get 3 ''b'', Set 4 ''c'' 3 None]
     (MemoryTTLCache_init 2) = [Some ''a'', Some ''b'', Some ''a'', Some ''b'', Some ''c''] \<and>
   set_item sample_floats 0 ''j'' 2 (Some (2 ^ 1024))
     \<lparr>store = [(''k'', \<lparr>val = 1::nat, expires_at = None\<rparr>)], max_items = 1\<rparr> =
     (Some (Exc OverflowError ''int too large to convert to float''),
      \<lparr>store = [(''k'', \<lparr>val = 1, expires_at = None\<rparr>)], max_items = 1\<rparr>)"
  by (simp add: touched_def cache_defs)

section \<open>Properties of the backend selector\<close>

lemma lower_redis: "lower ''REDIS'' = ''redis''" "lower ''Redis'' = ''redis''" "lower ''redis'' = ''redis''"
  by code_simp+

subsection \<open>C1: the backend kind \<open>redis\<close>\<close>

text \<open>
  Claim C1, as the code has it. When the backend kind is \<open>redis\<close> in any letter case,
  the first call of \<open>get_cache\<close> returns and retains a new in-process cache of maximum
  size 1024 if the connection string is absent or empty; if it is not empty, the call
  raises exactly when the client module is missing or its \<open>from_url\<close> raises on that
  string, and otherwise returns and retains the remote adapter.
\<close>

theorem get_cache_redis_kind:
  assumes "lower (cache_backend st) = ''redis''"
  shows "(redis_url st = None \<or> redis_url st = Some [] \<longrightarrow>
            get_cache aio st None =
              Inr (Memory (MemoryTTLCache_init 1024), Some (Memory (MemoryTTLCache_init 1024)))) \<and>
         (\<forall>url. redis_url st = Some url \<and> url \<noteq> [] \<longrightarrow>
            get_cache aio st None =
              (case aio of
                 None \<Rightarrow> Inl (Exc RuntimeError ''redis.asyncio not available. Ensure 'redis' package is installed.'')
               | Some from_url \<Rightarrow>
                   (case from_url url of
                      Inl e \<Rightarrow> Inl e
                    | Inr client \<Rightarrow> Inr (Redis client, Some (Redis client)))))"
  using assms
  by (auto simp: get_cache_def truthy_def RedisCache_init_def split: option.splits sum.splits)

text \<open>
  The theorem at the kind \<open>Redis\<close> without the client module: an empty connection
  string gives the in-process cache, a non-empty one the error.
\<close>

theorem get_cache_redis_kind_witness:
  "lower (cache_backend (default_settings\<lparr>cache_backend := ''Redis'', redis_url := Some ''''\<rparr>)) = ''redis'' \<and>
   get_cache (None :: unit aioredis) (default_settings\<lparr>cache_backend := ''Redis'', redis_url := Some ''''\<rparr>) None =
     Inr (Memory (MemoryTTLCache_init 1024 :: (nat, real) MemoryTTLCache), Some (Memory (MemoryTTLCache_init 1024))) \<and>
   get_cache (None :: unit aioredis) (default_settings\<lparr>cache_backend := ''Redis'', redis_url := Some ''redis://localhost:6379/0''\<rparr>) None =
     (Inl (Exc RuntimeError ''redis.asyncio not available. Ensure 'redis' package is installed.'')
       :: py_exc + ((nat, real, unit) CacheBackend \<times> (nat, real, unit) CacheBackend option))"
proof -
  let ?s1 = "default_settings\<lparr>cache_backend := ''Redis'', redis_url := Some ''''\<rparr>"
  let ?s2 = "default_settings\<lparr>cache_backend := ''Redis'', redis_url := Some ''redis://localhost:6379/0''\<rparr>"
  have l1: "lower (cache_backend ?s1) = ''redis''" by (simp add: lower_redis)
  have l2: "lower (cache_backend ?s2) = ''redis''" by (simp add: lower_redis)
  from get_cache_redis_kind[OF l1, of "None :: unit aioredis"]
       get_cache_redis_kind[OF l2, of "None :: unit aioredis"] l1
  show ?thesis by simp
qed

text \<open>
  With the kind \<open>redis\<close> and no connection string the call does not fail: it returns
  the in-process cache.
\<close>

theorem get_cache_redis_without_url_counterexample:
  "get_cache (None :: unit aioredis) (default_settings\<lparr>cache_backend := ''redis''\<rparr>) None =
     Inr (Memory (MemoryTTLCache_init 1024 :: (nat, real) MemoryTTLCache),
          Some (Memory (MemoryTTLCache_init 1024)))"
  by (simp add: get_cache_def default_settings_def truthy_def lower_redis)

section \<open>Properties of the job queue\<close>

subsection \<open>The invariants hold in every reachable state\<close>

lemma inv_workers_status:
  "inv_workers q \<Longrightarrow> holds q i r \<Longrightarrow> r < length (objects q) \<and> status (objects q ! r) = ''processing''"
  unfolding inv_workers_def by blast

lemma inv_workers_unique:
  "inv_workers q \<Longrightarrow> holds q i r \<Longrightarrow> holds q j r \<Longrightarrow> i = j"
  unfolding inv_workers_def by blast

lemma queue_inv_init: "queue_inv ops InMemoryJobQueue_init"
  by (simp add: queue_inv_def inv_jobs_def inv_queue_def inv_workers_def holds_def
      InMemoryJobQueue_init_def)

lemma holds_start: "holds (start st q) i r \<longleftrightarrow> holds q i r"
  by (auto simp: holds_def start_def nth_append)

lemma queue_inv_start: "queue_inv ops q \<Longrightarrow> queue_inv ops (start st q)"
  unfolding queue_inv_def inv_workers_def holds_start
  by (simp add: inv_jobs_def inv_queue_def start_def)

lemma holds_stop: "holds (stop q) i r \<longleftrightarrow> False"
  by (simp add: holds_def stop_def)

lemma queue_inv_stop: "queue_inv ops q \<Longrightarrow> queue_inv ops (stop q)"
  unfolding queue_inv_def inv_workers_def holds_stop
  by (simp add: inv_jobs_def inv_queue_def stop_def)

lemma job_ok_new: "job_ok ops (new_job uuid p)"
  by (simp add: job_ok_def new_job_def)

lemma enqueue_fields:
  "objects (snd (enqueue uuid p q)) = objects q @ [new_job uuid p]"
  "queue (snd (enqueue uuid p q)) = queue q @ [length (objects q)]"
  "jobs (snd (enqueue uuid p q)) = setitem uuid (length (objects q)) (jobs q)"
  "workers (snd (enqueue uuid p q)) = workers q"
  "shutdown (snd (enqueue uuid p q)) = shutdown q"
  "fst (enqueue uuid p q) = length (objects q)"
  by (simp_all add: enqueue_def Let_def)

lemma holds_enqueue: "holds (snd (enqueue uuid p q)) i r \<longleftrightarrow> holds q i r"
  by (simp add: holds_def enqueue_fields)

lemma queue_inv_enqueue:
  assumes "queue_inv ops q"
  shows "queue_inv ops (snd (enqueue uuid p q))"
proof -
  let ?q = "snd (enqueue uuid p q)"
  from assms have ij: "inv_jobs ops q" and iq: "inv_queue q" and iw: "inv_workers q"
    by (simp_all add: queue_inv_def)
  have "inv_jobs ops ?q"
    using ij by (simp add: inv_jobs_def enqueue_fields job_ok_new)
  moreover have "inv_queue ?q"
    using iq by (auto simp: inv_queue_def enqueue_fields nth_append new_job_def)
  moreover have "inv_workers ?q"
    unfolding inv_workers_def holds_enqueue
  proof (rule conjI; intro allI impI)
    fix i r assume "holds q i r"
    with iw have "r < length (objects q)" "status (objects q ! r) = ''processing''"
      by (blast dest: inv_workers_status)+
    then show "r < length (objects ?q) \<and> status (objects ?q ! r) = ''processing''"
      by (simp add: enqueue_fields nth_append)
  next
    fix i j r assume "holds q i r \<and> holds q j r"
    with iw show "i = j" by (blast dest: inv_workers_unique)
  qed
  ultimately show ?thesis by (simp add: queue_inv_def)
qed

lemma worker_dequeue_Some:
  assumes "worker_dequeue i q = Some q'"
  obtains r rest where "i < length (workers q)" "workers q ! i = Waiting" "\<not> shutdown q"
    "queue q = r # rest" "r < length (objects q)"
    "q' = q\<lparr>queue := rest,
             objects := (objects q)[r := (objects q ! r)\<lparr>status := ''processing''\<rparr>],
             workers := (workers q)[i := Working r]\<rparr>"
  using assms unfolding worker_dequeue_def
  by (auto split: if_splits list.splits)

lemma queue_inv_dequeue:
  assumes inv: "queue_inv ops q" and step: "worker_dequeue i q = Some q'"
  shows "queue_inv ops q'"
proof -
  from inv have ij: "inv_jobs ops q" and iq: "inv_queue q" and iw: "inv_workers q"
    by (simp_all add: queue_inv_def)
  from step obtain r rest where
    i: "i < length (workers q)" and w: "workers q ! i = Waiting" and
    qu: "queue q = r # rest" and r: "r < length (objects q)" and
    q': "q' = q\<lparr>queue := rest,
             objects := (objects q)[r := (objects q ! r)\<lparr>status := ''processing''\<rparr>],
             workers := (workers q)[i := Working r]\<rparr>"
    by (rule worker_dequeue_Some)
  from iq qu have rq: "status (objects q ! r) = ''queued''" and rn: "r \<notin> set rest"
    and dr: "distinct rest"
    and rest: "\<And>x. x \<in> set rest \<Longrightarrow> x < length (objects q) \<and> status (objects q ! x) = ''queued''"
    by (auto simp: inv_queue_def)
  from ij r have "job_ok ops (objects q ! r)" by (simp add: inv_jobs_def)
  with rq have ok: "job_ok ops ((objects q ! r)\<lparr>status := ''processing''\<rparr>)"
    by (simp add: job_ok_def)
  have "inv_jobs ops q'"
    unfolding inv_jobs_def q' using ij ok
    by (auto simp: inv_jobs_def dest!: set_update_subset_insert[THEN subsetD])
  moreover have "inv_queue q'"
    unfolding inv_queue_def
  proof (rule conjI; (intro ballI)?)
    show "distinct (queue q')" using dr by (simp add: q')
  next
    fix x assume "x \<in> set (queue q')"
    then have x: "x \<in> set rest" by (simp add: q')
    with rn have "r \<noteq> x" by auto
    with rest[OF x] show "x < length (objects q') \<and> status (objects q' ! x) = ''queued''"
      by (simp add: q')
  qed
  moreover have "inv_workers q'"
    unfolding inv_workers_def
  proof (rule conjI; intro allI impI)
    fix j x assume h: "holds q' j x"
    show "x < length (objects q') \<and> status (objects q' ! x) = ''processing''"
    proof (cases "j = i")
      case True
      with h i have "x = r" by (simp add: holds_def q')
      with r show ?thesis by (simp add: q')
    next
      case False
      with h have "holds q j x" by (simp add: holds_def q')
      with iw have "x < length (objects q)" "status (objects q ! x) = ''processing''"
        by (blast dest: inv_workers_status)+
      then show ?thesis using r by (simp add: q' nth_list_update)
    qed
  next
    fix j k x assume h: "holds q' j x \<and> holds q' k x"
    have old: "holds q a x \<Longrightarrow> x \<noteq> r" for a
    proof
      assume "holds q a x" "x = r"
      with iw have "status (objects q ! r) = ''processing''" by (blast dest: inv_workers_status)
      with rq show False by simp
    qed
    show "j = k"
    proof (cases "j = i")
      case ji: True
      with h i have xr: "x = r" by (simp add: holds_def q')
      show ?thesis
      proof (cases "k = i")
        case True with ji show ?thesis by simp
      next
        case False
        with h have "holds q k x" by (simp add: holds_def q')
        with old xr show ?thesis by blast
      qed
    next
      case ji: False
      with h have hj: "holds q j x" by (simp add: holds_def q')
      show ?thesis
      proof (cases "k = i")
        case True
        with h i have "x = r" by (simp add: holds_def q')
        with old hj show ?thesis by blast
      next
        case False
        with h have "holds q k x" by (simp add: holds_def q')
        with hj iw show ?thesis by (blast dest: inv_workers_unique)
      qed
    qed
  qed
  ultimately show ?thesis by (simp add: queue_inv_def)
qed

text \<open>
  The task raises only \<open>OverflowError\<close> or \<open>TypeError\<close>, which \<open>except Exception\<close>
  catches, so no exception leaves the \<open>try\<close> statement of the worker.
\<close>

lemma as_numbers_Inl: "as_numbers vs = Inl e \<Longrightarrow> e = unsupported"
proof (induction vs)
  case Nil
  then show ?case by simp
next
  case (Cons v vs)
  then show ?case
    by (cases v) (auto split: sum.splits)
qed

lemma py_sum_Exception: "py_sum ops vs = Inl e \<Longrightarrow> e = overflow \<or> e = unsupported"
  unfolding py_sum_def
  by (auto split: sum.splits option.splits dest: as_numbers_Inl)

lemma task_Exception: "task ops p = Inl e \<Longrightarrow> is_Exception e"
  unfolding task_def
  by (auto dest!: py_sum_Exception simp: overflow_def unsupported_def)

lemma process_cases:
  "process ops job =
     (case task ops (payload job) of
        Inr s \<Rightarrow> (job\<lparr>result := PDict [(''sum'', s)], status := ''done''\<rparr>, None)
      | Inl e \<Rightarrow> (job\<lparr>status := ''failed'', error := Some (str_exc e)\<rparr>, None))"
  unfolding process_def by (auto split: sum.splits dest: task_Exception)

lemma job_ok_process:
  assumes "job_ok ops job" "status job = ''processing''"
  shows "job_ok ops (fst (process ops job))"
  using assms unfolding process_cases job_ok_def
  by (auto split: sum.splits)

lemma worker_finish_Some:
  assumes "worker_finish ops i q = Some q'"
  obtains r where "holds q i r" "r < length (objects q)"
    "q' = q\<lparr>objects := (objects q)[r := fst (process ops (objects q ! r))],
             workers := (workers q)[i := Waiting]\<rparr>"
proof -
  from assms obtain r where i: "i < length (workers q)" and w: "workers q ! i = Working r"
    and r: "r < length (objects q)"
    unfolding worker_finish_def by (auto split: if_splits worker.splits)
  have "snd (process ops (objects q ! r)) = None"
    unfolding process_cases by (simp split: sum.splits)
  then obtain job' where "process ops (objects q ! r) = (job', None)"
    by (cases "process ops (objects q ! r)") auto
  with assms i w r have "q' = q\<lparr>objects := (objects q)[r := fst (process ops (objects q ! r))],
             workers := (workers q)[i := Waiting]\<rparr>"
    unfolding worker_finish_def by simp
  with i w r that show ?thesis by (simp add: holds_def)
qed

lemma queue_inv_finish:
  assumes inv: "queue_inv ops q" and step: "worker_finish ops i q = Some q'"
  shows "queue_inv ops q'"
proof -
  from inv have ij: "inv_jobs ops q" and iq: "inv_queue q" and iw: "inv_workers q"
    by (simp_all add: queue_inv_def)
  from step obtain r where h: "holds q i r" and r: "r < length (objects q)" and
    q': "q' = q\<lparr>objects := (objects q)[r := fst (process ops (objects q ! r))],
             workers := (workers q)[i := Waiting]\<rparr>"
    by (rule worker_finish_Some)
  from h have i: "i < length (workers q)" by (simp add: holds_def)
  from iw h have rp: "status (objects q ! r) = ''processing''" by (blast dest: inv_workers_status)
  from ij r have "job_ok ops (objects q ! r)" by (simp add: inv_jobs_def)
  then have ok: "job_ok ops (fst (process ops (objects q ! r)))" using rp by (rule job_ok_process)
  have "inv_jobs ops q'"
    unfolding inv_jobs_def q' using ij ok
    by (auto simp: inv_jobs_def dest!: set_update_subset_insert[THEN subsetD])
  moreover have "inv_queue q'"
    unfolding inv_queue_def
  proof (rule conjI; (intro ballI)?)
    show "distinct (queue q')" using iq by (simp add: q' inv_queue_def)
  next
    fix x assume "x \<in> set (queue q')"
    then have "x \<in> set (queue q)" by (simp add: q')
    with iq have x: "x < length (objects q)" "status (objects q ! x) = ''queued''"
      by (auto simp: inv_queue_def)
    with rp have "r \<noteq> x" by auto
    with x show "x < length (objects q') \<and> status (objects q' ! x) = ''queued''"
      by (simp add: q')
  qed
  moreover have "inv_workers q'"
    unfolding inv_workers_def
  proof (rule conjI; intro allI impI)
    fix j x assume hx: "holds q' j x"
    with i have ji: "j \<noteq> i" by (auto simp: holds_def q')
    with hx have hq: "holds q j x" by (simp add: holds_def q')
    with iw have x: "x < length (objects q)" "status (objects q ! x) = ''processing''"
      by (blast dest: inv_workers_status)+
    from hq h ji iw have "r \<noteq> x" by (blast dest: inv_workers_unique)
    with x show "x < length (objects q') \<and> status (objects q' ! x) = ''processing''"
      by (simp add: q')
  next
    fix j k x assume hx: "holds q' j x \<and> holds q' k x"
    with i have "j \<noteq> i" "k \<noteq> i" by (auto simp: holds_def q')
    with hx have "holds q j x" "holds q k x" by (simp_all add: holds_def q')
    with iw show "j = k" by (blast dest: inv_workers_unique)
  qed
  ultimately show ?thesis by (simp add: queue_inv_def)
qed

lemma queue_inv_exec:
  assumes "queue_inv ops q" "exec ops st ev q = Some q'"
  shows "queue_inv ops q'"
proof (cases ev)
  case Start
  with assms show ?thesis by (auto intro: queue_inv_start)
next
  case Stop
  with assms show ?thesis by (auto intro: queue_inv_stop)
next
  case (Enqueue uuid p)
  with assms show ?thesis by (auto intro: queue_inv_enqueue)
next
  case (Dequeue i)
  with assms show ?thesis by (auto intro: queue_inv_dequeue)
next
  case (Finish i)
  with assms show ?thesis by (auto intro: queue_inv_finish)
qed

lemma queue_inv_run:
  "queue_inv ops q \<Longrightarrow> run ops st evs q = Some q' \<Longrightarrow> queue_inv ops q'"
proof (induction evs arbitrary: q)
  case Nil
  then show ?case by simp
next
  case (Cons ev evs)
  from Cons.prems(2) obtain q1 where e: "exec ops st ev q = Some q1" and r: "run ops st evs q1 = Some q'"
    by (auto split: option.splits)
  from Cons.prems(1) e have "queue_inv ops q1" by (rule queue_inv_exec)
  then show ?case using r by (rule Cons.IH)
qed

lemma queue_inv_reachable:
  "run ops st evs InMemoryJobQueue_init = Some q \<Longrightarrow> queue_inv ops q"
  using queue_inv_init by (rule queue_inv_run)

lemma exec_job_step:
  assumes inv: "queue_inv ops q" and step: "exec ops st ev q = Some q'" and r: "r < length (objects q)"
  shows "r < length (objects q') \<and> job_step ops (objects q ! r) (objects q' ! r)"
proof (cases ev)
  case Start
  with step r show ?thesis by (auto simp: start_def job_step_def)
next
  case Stop
  with step r show ?thesis by (auto simp: stop_def job_step_def)
next
  case (Enqueue uuid p)
  with step r show ?thesis by (auto simp: enqueue_fields nth_append job_step_def)
next
  case (Dequeue i)
  with step have "worker_dequeue i q = Some q'" by simp
  then obtain r0 rest where qu: "queue q = r0 # rest" and r0: "r0 < length (objects q)" and
    q': "q' = q\<lparr>queue := rest,
             objects := (objects q)[r0 := (objects q ! r0)\<lparr>status := ''processing''\<rparr>],
             workers := (workers q)[i := Working r0]\<rparr>"
    by (rule worker_dequeue_Some)
  from inv qu have "status (objects q ! r0) = ''queued''"
    by (simp add: queue_inv_def inv_queue_def)
  with r r0 show ?thesis by (cases "r = r0") (simp_all add: q' job_step_def)
next
  case (Finish i)
  with step have "worker_finish ops i q = Some q'" by simp
  then obtain r0 where h: "holds q i r0" and r0: "r0 < length (objects q)" and
    q': "q' = q\<lparr>objects := (objects q)[r0 := fst (process ops (objects q ! r0))],
             workers := (workers q)[i := Waiting]\<rparr>"
    by (rule worker_finish_Some)
  from inv h have "status (objects q ! r0) = ''processing''"
    unfolding queue_inv_def by (blast dest: inv_workers_status)
  with r r0 show ?thesis by (cases "r = r0") (simp_all add: q' job_step_def)
qed

lemma status_process:
  "status (fst (process ops j)) = ''done'' \<or> status (fst (process ops j)) = ''failed''"
  unfolding process_cases by (simp split: sum.splits)

lemma job_ok_fields:
  assumes "job_ok ops j"
  shows "status j \<in> {''queued'', ''processing'', ''done'', ''failed''}"
    and "result j \<noteq> PNone \<Longrightarrow> status j = ''done''"
    and "error j \<noteq> None \<Longrightarrow> status j = ''failed''"
    and "status j = ''done'' \<Longrightarrow> \<exists>s. task ops (payload j) = Inr s \<and> result j = PDict [(''sum'', s)]"
  using assms unfolding job_ok_def
  by (auto split: if_splits sum.splits)

lemma job_id_process: "job_id (fst (process ops j)) = job_id j"
  unfolding process_cases by (simp split: sum.splits)

subsection \<open>The registry and the snapshot\<close>

lemma map_of_setitem: "map_of (setitem k v d) = (map_of d)(k \<mapsto> v)"
  by (induction d) (auto simp: fun_eq_iff)

lemma map_of_map_values:
  "map_of (map (\<lambda>(jid, job). (jid, f job)) d) jid = map_option f (map_of d jid)"
  by (induction d) auto

lemma map_of_snapshot:
  "map_of (snapshot q) jid = map_option (\<lambda>job. job_view (objects q ! job)) (map_of (jobs q) jid)"
  unfolding snapshot_def by (rule map_of_map_values)

lemma keys_snapshot: "keys (snapshot q) = keys (jobs q)"
  by (simp add: snapshot_def keys_def split_def comp_def)

lemma reg_ok_empty: "reg_ok [] []"
  by (simp add: reg_ok_def keys_def)

lemma reg_ok_setitem:
  assumes "reg_ok d ids"
  shows "reg_ok (setitem u (length ids) d) (ids @ [u])"
  unfolding reg_ok_def
proof (intro conjI allI impI)
  fix jid r assume l: "map_of (setitem u (length ids) d) jid = Some r"
  show "r < length (ids @ [u])" "(ids @ [u]) ! r = jid"
  proof -
    have "r < length (ids @ [u]) \<and> (ids @ [u]) ! r = jid"
    proof (cases "jid = u")
      case True
      with l have "r = length ids" by (simp add: map_of_setitem)
      with True show ?thesis by simp
    next
      case False
      with l have "map_of d jid = Some r" by (simp add: map_of_setitem)
      with assms have "r < length ids" "ids ! r = jid" unfolding reg_ok_def by blast+
      then show ?thesis by (simp add: nth_append)
    qed
    then show "r < length (ids @ [u])" "(ids @ [u]) ! r = jid" by simp_all
  qed
next
  from assms show "set (keys (setitem u (length ids) d)) = set (ids @ [u])"
    by (simp add: reg_ok_def keys_setitem)
qed

lemma exec_registry:
  assumes "exec ops st ev q = Some q'"
  shows "map job_id (objects q') = map job_id (objects q) @ enqueued_ids [ev] \<and>
         jobs q' = (case ev of Enqueue uuid p \<Rightarrow> setitem uuid (length (objects q)) (jobs q) | _ \<Rightarrow> jobs q)"
proof (cases ev)
  case Start
  with assms show ?thesis by (auto simp: start_def)
next
  case Stop
  with assms show ?thesis by (auto simp: stop_def)
next
  case (Enqueue uuid p)
  with assms show ?thesis by (auto simp: enqueue_fields new_job_def)
next
  case (Dequeue i)
  with assms have "worker_dequeue i q = Some q'" by simp
  then obtain r0 rest where r0: "r0 < length (objects q)" and
    q': "q' = q\<lparr>queue := rest,
             objects := (objects q)[r0 := (objects q ! r0)\<lparr>status := ''processing''\<rparr>],
             workers := (workers q)[i := Working r0]\<rparr>"
    by (rule worker_dequeue_Some)
  have "map job_id ((objects q)[r0 := (objects q ! r0)\<lparr>status := ''processing''\<rparr>]) = map job_id (objects q)"
    using r0 by (simp add: map_update list_update_same_conv)
  with Dequeue show ?thesis by (simp add: q')
next
  case (Finish i)
  with assms have "worker_finish ops i q = Some q'" by simp
  then obtain r0 where r0: "r0 < length (objects q)" and
    q': "q' = q\<lparr>objects := (objects q)[r0 := fst (process ops (objects q ! r0))],
             workers := (workers q)[i := Waiting]\<rparr>"
    by (rule worker_finish_Some)
  have "map job_id ((objects q)[r0 := fst (process ops (objects q ! r0))]) = map job_id (objects q)"
    using r0 by (simp add: map_update list_update_same_conv job_id_process)
  with Finish show ?thesis by (simp add: q')
qed

lemma exec_reg_ok:
  assumes "exec ops st ev q = Some q'" "reg_ok (jobs q) (map job_id (objects q))"
  shows "reg_ok (jobs q') (map job_id (objects q'))"
proof (cases ev)
  case Start
  with exec_registry[OF assms(1)] assms(2) show ?thesis by simp
next
  case Stop
  with exec_registry[OF assms(1)] assms(2) show ?thesis by simp
next
  case (Enqueue uuid p)
  from reg_ok_setitem[OF assms(2), of uuid] exec_registry[OF assms(1)] Enqueue
  show ?thesis by simp
next
  case (Dequeue i)
  with exec_registry[OF assms(1)] assms(2) show ?thesis by simp
next
  case (Finish i)
  with exec_registry[OF assms(1)] assms(2) show ?thesis by simp
qed

lemma run_registry:
  "run ops st evs q = Some q' \<Longrightarrow> reg_ok (jobs q) (map job_id (objects q)) \<Longrightarrow>
   reg_ok (jobs q') (map job_id (objects q')) \<and>
   map job_id (objects q') = map job_id (objects q) @ enqueued_ids evs"
proof (induction evs arbitrary: q)
  case Nil
  then show ?case by simp
next
  case (Cons ev evs)
  from Cons.prems(1) obtain q1 where e: "exec ops st ev q = Some q1" and r: "run ops st evs q1 = Some q'"
    by (auto split: option.splits)
  from e Cons.prems(2) have ok1: "reg_ok (jobs q1) (map job_id (objects q1))" by (rule exec_reg_ok)
  from exec_registry[OF e] have ids1: "map job_id (objects q1) = map job_id (objects q) @ enqueued_ids [ev]"
    by simp
  have cat: "enqueued_ids [ev] @ enqueued_ids evs = enqueued_ids (ev # evs)" by (cases ev) simp_all
  note ih = Cons.IH[OF r ok1]
  from ih have ok': "reg_ok (jobs q') (map job_id (objects q'))" by (rule conjunct1)
  from ih have ids': "map job_id (objects q') = map job_id (objects q1) @ enqueued_ids evs"
    by (rule conjunct2)
  from ids' have "map job_id (objects q') = map job_id (objects q) @ enqueued_ids (ev # evs)"
    unfolding ids1 cat[symmetric] by simp
  with ok' show ?case by (rule conjI)
qed

subsection \<open>The task and the sum of the specification\<close>




subsection \<open>Sample runs\<close>

lemmas queue_defs = start_def stop_def enqueue_def worker_dequeue_def worker_finish_def process_def
  task_def py_sum_def new_job_def InMemoryJobQueue_init_def default_settings_def
  sample_floats_def sample_of_int_def Let_def overflow_def unsupported_def snapshot_def job_view_def

lemma sample_run_processing:
  "run sample_floats default_settings
     [Start, Enqueue ''job-1'' [(''x'', PInt 3), (''flag'', PBool True)], Dequeue 0]
     InMemoryJobQueue_init =
   Some \<lparr>objects = [\<lparr>job_id = ''job-1'', payload = [(''x'', PInt 3), (''flag'', PBool True)],
                     status = ''processing'', result = PNone, error = None\<rparr>],
         queue = [], jobs = [(''job-1'', 0)], workers = [Working 0, Waiting], shutdown = False\<rparr>"
  by (simp add: queue_defs numeral_2_eq_2)



lemma sample_run_two_jobs:
  "run sample_floats default_settings
     [Start, Enqueue ''job-1'' [(''big'', PInt (2 ^ 1024)), (''f'', PFloat (3 / 2))],
      Enqueue ''job-2'' [(''y'', PInt 4)], Dequeue 0, Dequeue 1, Finish 0]
     InMemoryJobQueue_init =
   Some \<lparr>objects = [\<lparr>job_id = ''job-1'',
                     payload = [(''big'', PInt (2 ^ 1024)), (''f'', PFloat (3 / 2))],
                     status = ''failed'', result = PNone,
                     error = Some ''int too large to convert to float''\<rparr>,
                    \<lparr>job_id = ''job-2'', payload = [(''y'', PInt 4)],
                     status = ''processing'', result = PNone, error = None\<rparr>],
         queue = [], jobs = [(''job-1'', 0), (''job-2'', 1)], workers = [Waiting, Working 1],
         shutdown = False\<rparr>"
  by (simp add: queue_defs numeral_2_eq_2)

subsection \<open>C6: the lifecycle of a job\<close>

text \<open>
  Claim C6. In every state the process reaches, every job has one of the four statuses;
  a turn either leaves the status of a job as it is or moves it along one of the edges
  queued to processing, processing to done, processing to failed; a job that is done or
  failed is not changed by any turn; a job has a result only when it is done and an
  error only when it is failed.
\<close>

theorem job_lifecycle:
  assumes "run ops st evs InMemoryJobQueue_init = Some q"
    and "exec ops st ev q = Some q'"
    and "r < length (objects q)"
  shows "r < length (objects q') \<and>
         status (objects q ! r) \<in> {''queued'', ''processing'', ''done'', ''failed''} \<and>
         (status (objects q' ! r) = status (objects q ! r) \<or>
          (status (objects q ! r), status (objects q' ! r)) \<in>
            {(''queued'', ''processing''), (''processing'', ''done''), (''processing'', ''failed'')}) \<and>
         (status (objects q ! r) = ''done'' \<or> status (objects q ! r) = ''failed''
            \<longrightarrow> objects q' ! r = objects q ! r) \<and>
         (result (objects q ! r) \<noteq> PNone \<longrightarrow> status (objects q ! r) = ''done'') \<and>
         (error (objects q ! r) \<noteq> None \<longrightarrow> status (objects q ! r) = ''failed'')"
proof -
  from assms(1) have inv: "queue_inv ops q" by (rule queue_inv_reachable)
  from exec_job_step[OF inv assms(2,3)] have len: "r < length (objects q')"
    and js: "job_step ops (objects q ! r) (objects q' ! r)" by simp_all
  from inv assms(3) have ok: "job_ok ops (objects q ! r)"
    by (simp add: queue_inv_def inv_jobs_def)
  from js status_process[of ops "objects q ! r"]
  have edge: "status (objects q' ! r) = status (objects q ! r) \<or>
          (status (objects q ! r), status (objects q' ! r)) \<in>
            {(''queued'', ''processing''), (''processing'', ''done''), (''processing'', ''failed'')}"
    unfolding job_step_def by auto
  from js have fin: "status (objects q ! r) = ''done'' \<or> status (objects q ! r) = ''failed''
            \<longrightarrow> objects q' ! r = objects q ! r"
    unfolding job_step_def by auto
  from len edge fin job_ok_fields(1-3)[OF ok] show ?thesis by blast
qed

text \<open>
  The theorem at the turn in which worker 0 finishes the job it holds.
\<close>

theorem job_lifecycle_witness:
  "run sample_floats default_settings
     [Start, Enqueue ''job-1'' [(''x'', PInt 3), (''flag'', PBool True)], Dequeue 0]
     InMemoryJobQueue_init =
   Some \<lparr>objects = [\<lparr>job_id = ''job-1'', payload = [(''x'', PInt 3), (''flag'', PBool True)],
                     status = ''processing'', result = PNone, error = None\<rparr>],
         queue = [], jobs = [(''job-1'', 0)], workers = [Working 0, Waiting], shutdown = False\<rparr> \<and>
   exec sample_floats default_settings (Finish 0)
     \<lparr>objects = [\<lparr>job_id = ''job-1'', payload = [(''x'', PInt 3), (''flag'', PBool True)],
                     status = ''processing'', result = PNone, error = None\<rparr>],
         queue = [], jobs = [(''job-1'', 0)], workers = [Working 0, Waiting], shutdown = False\<rparr> =
   Some \<lparr>objects = [\<lparr>job_id = ''job-1'', payload = [(''x'', PInt 3), (''flag'', PBool True)],
                     status = ''done'', result = PDict [(''sum'', PInt 4)], error = None\<rparr>],
         queue = [], jobs = [(''job-1'', 0)], workers = [Waiting, Waiting], shutdown = False\<rparr> \<and>
   (''processing'', ''done'') \<in>
     {(''queued'', ''processing''), (''processing'', ''done''), (''processing'', ''failed'')}"
proof -
  let ?q = "\<lparr>objects = [\<lparr>job_id = ''job-1'', payload = [(''x'', PInt 3), (''flag'', PBool True :: real pyval)],
                     status = ''processing'', result = PNone, error = None\<rparr>],
         queue = [], jobs = [(''job-1'', 0)], workers = [Working 0, Waiting], shutdown = False\<rparr>"
  let ?q' = "\<lparr>objects = [\<lparr>job_id = ''job-1'', payload = [(''x'', PInt 3), (''flag'', PBool True :: real pyval)],
                     status = ''done'', result = PDict [(''sum'', PInt 4)], error = None\<rparr>],
         queue = [], jobs = [(''job-1'', 0)], workers = [Waiting, Waiting], shutdown = False\<rparr>"
  have e: "exec sample_floats default_settings (Finish 0) ?q = Some ?q'"
    by (simp add: queue_defs)
  have r: "0 < length (objects ?q)" by simp
  from job_lifecycle[OF sample_run_processing e r] sample_run_processing e
  show ?thesis by simp
qed

subsection \<open>C7: a task that raises\<close>

text \<open>
  Claim C7. When the task of the job a worker holds raises, no exception leaves the
  \<open>try\<close> statement: the worker sets the status of the job to failed and its error to
  the message of the exception, and is waiting on the channel again; if the channel is
  not empty, its next turn takes the job at the head. \<open>enqueue\<close> has returned before
  the worker's turn, so nothing reaches its caller.
\<close>

theorem failing_task_is_recorded:
  assumes "i < length (workers q)" and "workers q ! i = Working r" and "r < length (objects q)"
    and "task ops (payload (objects q ! r)) = Inl exc"
  shows "process ops (objects q ! r) =
           ((objects q ! r)\<lparr>status := ''failed'', error := Some (str_exc exc)\<rparr>, None) \<and>
         worker_finish ops i q =
           Some (q\<lparr>objects := (objects q)[r := (objects q ! r)\<lparr>status := ''failed'', error := Some (str_exc exc)\<rparr>],
                   workers := (workers q)[i := Waiting]\<rparr>) \<and>
         (\<forall>r' rest. queue q = r' # rest \<and> r' < length (objects q) \<and> \<not> shutdown q \<longrightarrow>
            (\<exists>q1 q2. worker_finish ops i q = Some q1 \<and> worker_dequeue i q1 = Some q2 \<and>
               workers q2 ! i = Working r' \<and> queue q2 = rest))"
proof -
  let ?j = "(objects q ! r)\<lparr>status := ''failed'', error := Some (str_exc exc)\<rparr>"
  let ?q1 = "q\<lparr>objects := (objects q)[r := ?j], workers := (workers q)[i := Waiting]\<rparr>"
  have p: "process ops (objects q ! r) = (?j, None)"
    unfolding process_cases using assms(4) by simp
  have f: "worker_finish ops i q = Some ?q1"
    unfolding worker_finish_def using assms(1-3) p by simp
  have "\<exists>q2. worker_dequeue i ?q1 = Some q2 \<and> workers q2 ! i = Working r' \<and> queue q2 = rest"
    if "queue q = r' # rest \<and> r' < length (objects q) \<and> \<not> shutdown q" for r' rest
    using that assms(1) unfolding worker_dequeue_def by simp
  with p f show ?thesis by blast
qed

text \<open>
  The theorem at a payload whose sum overflows: an integer beyond the range of a float,
  added to a float.
\<close>

theorem failing_task_is_recorded_witness:
  "task sample_floats [(''big'', PInt (2 ^ 1024)), (''f'', PFloat (3 / 2 :: real))] =
     Inl (Exc OverflowError ''int too large to convert to float'') \<and>
   worker_finish sample_floats 0
     \<lparr>objects = [\<lparr>job_id = ''job-1'', payload = [(''big'', PInt (2 ^ 1024)), (''f'', PFloat (3 / 2 :: real))],
                   status = ''processing'', result = PNone, error = None\<rparr>,
                 \<lparr>job_id = ''job-2'', payload = [(''y'', PInt 4)],
                   status = ''queued'', result = PNone, error = None\<rparr>],
       queue = [1], jobs = [(''job-1'', 0), (''job-2'', 1)], workers = [Working 0], shutdown = False\<rparr> =
   Some
     \<lparr>objects = [\<lparr>job_id = ''job-1'', payload = [(''big'', PInt (2 ^ 1024)), (''f'', PFloat (3 / 2 :: real))],
                   status = ''failed'', result = PNone,
                   error = Some ''int too large to convert to float''\<rparr>,
                 \<lparr>job_id = ''job-2'', payload = [(''y'', PInt 4)],
                   status = ''queued'', result = PNone, error = None\<rparr>],
       queue = [1], jobs = [(''job-1'', 0), (''job-2'', 1)], workers = [Waiting], shutdown = False\<rparr> \<and>
   (\<exists>q2. worker_dequeue 0
       \<lparr>objects = [\<lparr>job_id = ''job-1'', payload = [(''big'', PInt (2 ^ 1024)), (''f'', PFloat (3 / 2 :: real))],
                   status = ''failed'', result = PNone,
                   error = Some ''int too large to convert to float''\<rparr>,
                 \<lparr>job_id = ''job-2'', payload = [(''y'', PInt 4)],
                   status = ''queued'', result = PNone, error = None\<rparr>],
       queue = [1], jobs = [(''job-1'', 0), (''job-2'', 1)], workers = [Waiting], shutdown = False\<rparr> = Some q2 \<and>
      workers q2 ! 0 = Working 1 \<and> queue q2 = [])"
proof -
  let ?p = "[(''big'', PInt (2 ^ 1024)), (''f'', PFloat (3 / 2 :: real))]"
  let ?q = "\<lparr>objects = [\<lparr>job_id = ''job-1'', payload = ?p,
                   status = ''processing'', result = PNone, error = None\<rparr>,
                 \<lparr>job_id = ''job-2'', payload = [(''y'', PInt 4)],
                   status = ''queued'', result = PNone, error = None\<rparr>],
       queue = [1], jobs = [(''job-1'', 0), (''job-2'', 1)], workers = [Working 0], shutdown = False\<rparr>"
  have t: "task sample_floats ?p = Inl (Exc OverflowError ''int too large to convert to float'')"
    by (simp add: task_def py_sum_def sample_floats_def sample_of_int_def overflow_def)
  have h1: "0 < length (workers ?q)" by simp
  have h2: "workers ?q ! 0 = Working 0" by simp
  have h3: "0 < length (objects ?q)" by simp
  have h4: "task sample_floats (payload (objects ?q ! 0)) =
              Inl (Exc OverflowError ''int too large to convert to float'')"
    using t by simp
  note inst = failing_task_is_recorded[OF h1 h2 h3 h4]
  from inst have f: "worker_finish sample_floats 0 ?q =
     Some (?q\<lparr>objects := (objects ?q)[0 := (objects ?q ! 0)\<lparr>status := ''failed'',
                error := Some (str_exc (Exc OverflowError ''int too large to convert to float''))\<rparr>],
              workers := (workers ?q)[0 := Waiting]\<rparr>)"
    by blast
  have "queue ?q = 1 # [] \<and> 1 < length (objects ?q) \<and> \<not> shutdown ?q" by simp
  with inst obtain q1 q2 where "worker_finish sample_floats 0 ?q = Some q1"
    "worker_dequeue 0 q1 = Some q2" "workers q2 ! 0 = Working 1" "queue q2 = []"
    by blast
  with f t show ?thesis by simp
qed

subsection \<open>C8: what \<open>enqueue\<close> returns\<close>

text \<open>
  Claim C8. For every payload and every state, \<open>enqueue\<close> returns a reference to a
  new job that carries the generated identifier, has the status queued, no result and no
  error; on return the registry maps the identifier to that job, the snapshot shows it as
  queued, and the job is at the tail of the channel. When the identifier is fresh the
  registry gains exactly this entry.
\<close>

theorem enqueue_returns_queued_job:
  "fst (enqueue uuid p q) = length (objects q) \<and>
   objects (snd (enqueue uuid p q)) ! fst (enqueue uuid p q) =
     \<lparr>job_id = uuid, payload = p, status = ''queued'', result = PNone, error = None\<rparr> \<and>
   map_of (jobs (snd (enqueue uuid p q))) uuid = Some (fst (enqueue uuid p q)) \<and>
   map_of (snapshot (snd (enqueue uuid p q))) uuid =
     Some (PDict [(''status'', PStr ''queued''), (''result'', PNone), (''error'', PNone)]) \<and>
   queue (snd (enqueue uuid p q)) = queue q @ [fst (enqueue uuid p q)] \<and>
   (\<not> contains uuid (jobs q) \<longrightarrow>
      jobs (snd (enqueue uuid p q)) = jobs q @ [(uuid, fst (enqueue uuid p q))])"
  by (simp add: map_of_snapshot enqueue_fields map_of_setitem setitem_new new_job_def job_view_def)

text \<open>
  The theorem at the second of two calls with different identifiers.
\<close>

theorem enqueue_returns_queued_job_witness:
  "\<not> contains ''job-2'' (jobs (snd (enqueue ''job-1'' [(''x'', PInt 3)] (InMemoryJobQueue_init :: real InMemoryJobQueue)))) \<and>
   jobs (snd (enqueue ''job-2'' [(''y'', PInt 4)]
          (snd (enqueue ''job-1'' [(''x'', PInt 3)] (InMemoryJobQueue_init :: real InMemoryJobQueue))))) =
     [(''job-1'', 0), (''job-2'', 1)] \<and>
   map_of (snapshot (snd (enqueue ''job-2'' [(''y'', PInt 4)]
          (snd (enqueue ''job-1'' [(''x'', PInt 3)] (InMemoryJobQueue_init :: real InMemoryJobQueue)))))) ''job-2'' =
     Some (PDict [(''status'', PStr ''queued''), (''result'', PNone), (''error'', PNone)])"
proof -
  let ?q1 = "snd (enqueue ''job-1'' [(''x'', PInt 3)] (InMemoryJobQueue_init :: real InMemoryJobQueue))"
  have q1: "jobs ?q1 = [(''job-1'', 0)]" "objects ?q1 = [new_job ''job-1'' [(''x'', PInt 3)]]"
    by (simp_all add: enqueue_fields InMemoryJobQueue_init_def)
  have fresh: "\<not> contains ''job-2'' (jobs ?q1)" by (simp add: q1 contains_def keys_def)
  from enqueue_returns_queued_job[of "''job-2''" "[(''y'', PInt 4)]" ?q1] fresh
  show ?thesis by (simp add: q1)
qed

subsection \<open>C9: the snapshot\<close>

text \<open>
  Claim C9. In every state the process reaches, the jobs in the heap are the jobs that
  \<open>enqueue\<close> returned, in order, and the keys of the snapshot are their identifiers: no
  entry is ever removed. When the generated identifiers are distinct, the entry of each
  job is the dictionary of the status, the result and the error that the job has in that
  state, the error being \<open>None\<close> when the job has none.
\<close>

theorem snapshot_has_every_job:
  assumes "run ops st evs InMemoryJobQueue_init = Some q"
  shows "map job_id (objects q) = enqueued_ids evs \<and>
         set (keys (snapshot q)) = set (enqueued_ids evs) \<and>
         (distinct (enqueued_ids evs) \<longrightarrow>
            (\<forall>r < length (objects q).
               map_of (snapshot q) (job_id (objects q ! r)) =
                 Some (PDict [(''status'', PStr (status (objects q ! r))),
                              (''result'', result (objects q ! r)),
                              (''error'', case error (objects q ! r) of
                                            None \<Rightarrow> PNone
                                          | Some m \<Rightarrow> PStr m)])))"
proof -
  have "reg_ok (jobs (InMemoryJobQueue_init :: 'a InMemoryJobQueue))
          (map job_id (objects (InMemoryJobQueue_init :: 'a InMemoryJobQueue)))"
    by (simp add: InMemoryJobQueue_init_def reg_ok_empty)
  note rr = run_registry[OF assms this]
  from rr have ok: "reg_ok (jobs q) (map job_id (objects q))" by (rule conjunct1)
  from rr have ids: "map job_id (objects q) = enqueued_ids evs"
    by (simp add: InMemoryJobQueue_init_def)
  from ok ids have ks: "set (keys (snapshot q)) = set (enqueued_ids evs)"
    by (simp add: keys_snapshot reg_ok_def)
  have "map_of (snapshot q) (job_id (objects q ! r)) =
          Some (PDict [(''status'', PStr (status (objects q ! r))),
                       (''result'', result (objects q ! r)),
                       (''error'', case error (objects q ! r) of
                                     None \<Rightarrow> PNone
                                   | Some m \<Rightarrow> PStr m)])"
    if d: "distinct (enqueued_ids evs)" and r: "r < length (objects q)" for r
  proof -
    from r have "job_id (objects q ! r) \<in> set (map job_id (objects q))" by simp
    with ok have "job_id (objects q ! r) \<in> set (keys (jobs q))" by (simp add: reg_ok_def)
    then have "map_of (jobs q) (job_id (objects q ! r)) \<noteq> None"
      unfolding keys_def by (simp add: map_of_eq_None_iff)
    then obtain r' where l: "map_of (jobs q) (job_id (objects q ! r)) = Some r'" by blast
    with ok have r': "r' < length (map job_id (objects q))"
      "map job_id (objects q) ! r' = job_id (objects q ! r)"
      unfolding reg_ok_def by blast+
    from r have "map job_id (objects q) ! r = job_id (objects q ! r)" by simp
    moreover from d ids have "distinct (map job_id (objects q))" by simp
    ultimately have "r' = r"
      using r' r nth_eq_iff_index_eq[of "map job_id (objects q)" r' r] by simp
    with l show ?thesis by (simp add: map_of_snapshot job_view_def)
  qed
  with ids ks show ?thesis by blast
qed

text \<open>
  The theorem at a run with two jobs and two workers, the first job failed and the
  second still processing.
\<close>

theorem snapshot_has_every_job_witness:
  "run sample_floats default_settings
     [Start, Enqueue ''job-1'' [(''big'', PInt (2 ^ 1024)), (''f'', PFloat (3 / 2))],
      Enqueue ''job-2'' [(''y'', PInt 4)], Dequeue 0, Dequeue 1, Finish 0]
     InMemoryJobQueue_init =
   Some \<lparr>objects = [\<lparr>job_id = ''job-1'',
                     payload = [(''big'', PInt (2 ^ 1024)), (''f'', PFloat (3 / 2))],
                     status = ''failed'', result = PNone,
                     error = Some ''int too large to convert to float''\<rparr>,
                    \<lparr>job_id = ''job-2'', payload = [(''y'', PInt 4)],
                     status = ''processing'', result = PNone, error = None\<rparr>],
         queue = [], jobs = [(''job-1'', 0), (''job-2'', 1)], workers = [Waiting, Working 1],
         shutdown = False\<rparr> \<and>
   distinct (enqueued_ids
     [Start, Enqueue ''job-1'' [(''big'', PInt (2 ^ 1024)), (''f'', PFloat (3 / 2 :: real))],
      Enqueue ''job-2'' [(''y'', PInt 4)], Dequeue 0, Dequeue 1, Finish 0]) \<and>
   map_of (snapshot \<lparr>objects = [\<lparr>job_id = ''job-1'',
                     payload = [(''big'', PInt (2 ^ 1024)), (''f'', PFloat (3 / 2 :: real))],
                     status = ''failed'', result = PNone,
                     error = Some ''int too large to convert to float''\<rparr>,
                    \<lparr>job_id = ''job-2'', payload = [(''y'', PInt 4)],
                     status = ''processing'', result = PNone, error = None\<rparr>],
         queue = [], jobs = [(''job-1'', 0), (''job-2'', 1)], workers = [Waiting, Working 1],
         shutdown = False\<rparr>) ''job-1'' =
     Some (PDict [(''status'', PStr ''failed''), (''result'', PNone),
                  (''error'', PStr ''int too large to convert to float'')]) \<and>
   map_of (snapshot \<lparr>objects = [\<lparr>job_id = ''job-1'',
                     payload = [(''big'', PInt (2 ^ 1024)), (''f'', PFloat (3 / 2 :: real))],
                     status = ''failed'', result = PNone,
                     error = Some ''int too large to convert to float''\<rparr>,
                    \<lparr>job_id = ''job-2'', payload = [(''y'', PInt 4)],
                     status = ''processing'', result = PNone, error = None\<rparr>],
         queue = [], jobs = [(''job-1'', 0), (''job-2'', 1)], workers = [Waiting, Working 1],
         shutdown = False\<rparr>) ''job-2'' =
     Some (PDict [(''status'', PStr ''processing''), (''result'', PNone), (''error'', PNone)])"
proof -
  let ?evs = "[Start, Enqueue ''job-1'' [(''big'', PInt (2 ^ 1024)), (''f'', PFloat (3 / 2 :: real))],
      Enqueue ''job-2'' [(''y'', PInt 4)], Dequeue 0, Dequeue 1, Finish 0]"
  let ?q = "\<lparr>objects = [\<lparr>job_id = ''job-1'',
                     payload = [(''big'', PInt (2 ^ 1024)), (''f'', PFloat (3 / 2 :: real))],
                     status = ''failed'', result = PNone,
                     error = Some ''int too large to convert to float''\<rparr>,
                    \<lparr>job_id = ''job-2'', payload = [(''y'', PInt 4)],
                     status = ''processing'', result = PNone, error = None\<rparr>],
         queue = [], jobs = [(''job-1'', 0), (''job-2'', 1)], workers = [Waiting, Working 1],
         shutdown = False\<rparr>"
  have d: "distinct (enqueued_ids ?evs)" by simp
  note inst = snapshot_has_every_job[OF sample_run_two_jobs, THEN conjunct2, THEN conjunct2,
      THEN mp, OF d]
  have "0 < length (objects ?q)" by simp
  with inst have "map_of (snapshot ?q) (job_id (objects ?q ! 0)) =
      Some (PDict [(''status'', PStr (status (objects ?q ! 0))), (''result'', result (objects ?q ! 0)),
                   (''error'', case error (objects ?q ! 0) of None \<Rightarrow> PNone | Some m \<Rightarrow> PStr m)])"
    by blast
  then have e1: "map_of (snapshot ?q) ''job-1'' =
     Some (PDict [(''status'', PStr ''failed''), (''result'', PNone),
                  (''error'', PStr ''int too large to convert to float'')])"
    by simp
  have "1 < length (objects ?q)" by simp
  with inst have "map_of (snapshot ?q) (job_id (objects ?q ! 1)) =
      Some (PDict [(''status'', PStr (status (objects ?q ! 1))), (''result'', result (objects ?q ! 1)),
                   (''error'', case error (objects ?q ! 1) of None \<Rightarrow> PNone | Some m \<Rightarrow> PStr m)])"
    by blast
  then have e2: "map_of (snapshot ?q) ''job-2'' =
     Some (PDict [(''status'', PStr ''processing''), (''result'', PNone), (''error'', PNone)])"
    by simp
  from sample_run_two_jobs d e1 e2 show ?thesis by simp
qed

subsection \<open>C10: the result of a job that is done\<close>



end
